theory Spec2Isabelle
  imports Complex_Main "HOL-Library.Word"
begin

unbundle bit_operations_syntax

section \<open>Machine types\<close>

type_synonym u8 = "8 word"
type_synonym u32 = "32 word"

text \<open>
  Values of C type \<open>int\<close> / \<open>int32_t\<close> are modelled as HOL integers; \<open>i32\<close> is the
  two's-complement wrap-around of a 32-bit signed result, written out wherever a sum
  can leave the range.
\<close>

definition i32 :: "int \<Rightarrow> int" where
  "i32 x = signed_take_bit 31 x"

section \<open>rle\_decode.c: CTB decrypt and RLE decode\<close>

text \<open>
  The mutable locals that \<open>read_byte\<close> receives by pointer: the read position \<open>n\<close>,
  the evolving \<open>key\<close>, \<open>key_byte_index\<close> and the \<open>ok\<close> flag.
\<close>

record reader =
  rd_n :: nat
  rd_key :: u32
  rd_kbi :: nat
  rd_ok :: bool

definition read_byte :: "u8 list \<Rightarrow> bool \<Rightarrow> u32 \<Rightarrow> reader \<Rightarrow> u8 \<times> reader" where
  "read_byte data encrypted init r =
     (if rd_n r \<ge> length data then (0, r\<lparr>rd_ok := False\<rparr>)
      else
        let v = data ! rd_n r;
            r1 = r\<lparr>rd_n := rd_n r + 1\<rparr>
        in if \<not> encrypted then (v, r1)
           else
             let k = (ucast (drop_bit (8 * rd_kbi r) (rd_key r) AND 0xFF) :: u8);
                 kbi = rd_kbi r + 1
             in if kbi mod 4 = 0
                then (v XOR k, r1\<lparr>rd_key := rd_key r + init, rd_kbi := 0\<rparr>)
                else (v XOR k, r1\<lparr>rd_kbi := kbi\<rparr>))"

text \<open>The key set-up at the head of \<open>decrypt_and_decode_layer\<close>.\<close>

definition key_init :: "u32 \<Rightarrow> u32" where
  "key_init encryption_key = encryption_key * 0x2d83cdac + 0xd8a83423"

definition key_start :: "u32 \<Rightarrow> u32 \<Rightarrow> u32" where
  "key_start layer_index encryption_key =
     (layer_index * 0x1e1530cd + 0xec3d47cd) * key_init encryption_key"

definition initial_reader :: "u32 \<Rightarrow> u32 \<Rightarrow> reader" where
  "initial_reader layer_index encryption_key =
     (if encryption_key \<noteq> 0
      then \<lparr>rd_n = 0, rd_key = key_start layer_index encryption_key, rd_kbi = 0, rd_ok = True\<rparr>
      else \<lparr>rd_n = 0, rd_key = 0, rd_kbi = 0, rd_ok = True\<rparr>)"

text \<open>
  The stride descriptor branch of the loop body: \<open>slen\<close> has been read, the
  continuation bytes are read here. The sums are unsigned 32-bit, the result is
  converted to \<open>int\<close>.
\<close>

definition read_stride :: "u8 list \<Rightarrow> bool \<Rightarrow> u32 \<Rightarrow> u8 \<Rightarrow> reader \<Rightarrow> int \<times> reader" where
  "read_stride data encrypted init slen r =
     (if slen AND 0x80 = 0 then (sint (ucast slen :: u32), r)
      else if slen AND 0xC0 = 0x80 then
        (let (b0, r1) = read_byte data encrypted init r
         in (sint (push_bit 8 (ucast (slen AND 0x3F) :: u32) + ucast b0), r1))
      else if slen AND 0xE0 = 0xC0 then
        (let (b0, r1) = read_byte data encrypted init r;
             (b1, r2) = read_byte data encrypted init r1
         in (sint (push_bit 16 (ucast (slen AND 0x1F) :: u32) + push_bit 8 (ucast b0) + ucast b1), r2))
      else if slen AND 0xF0 = 0xE0 then
        (let (b0, r1) = read_byte data encrypted init r;
             (b1, r2) = read_byte data encrypted init r1;
             (b2, r3) = read_byte data encrypted init r2
         in (sint (push_bit 24 (ucast (slen AND 0x0F) :: u32) + push_bit 16 (ucast b0)
                   + push_bit 8 (ucast b1) + ucast b2), r3))
      else (1, r))"

text \<open>
  One token of the loop body: the code byte, then the stride when the MSB is set.
  A failed read leaves \<open>rd_ok\<close> cleared; the loop then breaks and the other two
  components are not used.
\<close>

definition read_run :: "u8 list \<Rightarrow> bool \<Rightarrow> u32 \<Rightarrow> reader \<Rightarrow> u8 \<times> int \<times> reader" where
  "read_run data encrypted init r =
     (let (code, r1) = read_byte data encrypted init r
      in if \<not> rd_ok r1 then (code, 1, r1)
         else if code AND 0x80 \<noteq> 0 then
           (let code' = code AND 0x7F;
                (slen, r2) = read_byte data encrypted init r1
            in if \<not> rd_ok r2 then (code', 1, r2)
               else let (stride, r3) = read_stride data encrypted init slen r2
                    in (code', stride, r3))
         else (code, 1, r1))"

definition pixel_value :: "u8 \<Rightarrow> u8" where
  "pixel_value code = (if code = 0 then 0 else push_bit 1 code OR 1)"

text \<open>The inner loop \<open>for (i = pixel; i < end; i++) out_pixels[i] = pixel_value\<close>,
  given its start index and its number of iterations.\<close>

fun write_run :: "u8 list \<Rightarrow> nat \<Rightarrow> nat \<Rightarrow> u8 \<Rightarrow> u8 list" where
  "write_run out i 0 v = out"
| "write_run out i (Suc k) v = write_run (out[i := v]) (Suc i) k v"

datatype decode_error = InvalidArgument | OutOfBoundsWrite

text \<open>
  The decode loop. \<open>pixel + stride\<close> is a signed 32-bit sum. A write at a negative
  index (possible only after that sum has wrapped) leaves the buffer: it is reported
  as \<open>OutOfBoundsWrite\<close>.
\<close>

function decode_loop ::
  "u8 list \<Rightarrow> bool \<Rightarrow> u32 \<Rightarrow> int \<Rightarrow> reader \<Rightarrow> int \<Rightarrow> u8 list \<Rightarrow> decode_error + u8 list" where
  "decode_loop data encrypted init pixel_count r pixel out =
     (if rd_n r < length data \<and> pixel < pixel_count \<and> rd_ok r then
        (let (code, stride, r') = read_run data encrypted init r
         in if \<not> rd_ok r' then Inr out
            else
              let pv = pixel_value code;
                  end0 = i32 (pixel + stride);
                  end = (if end0 > pixel_count then pixel_count else end0)
              in if pv \<noteq> 0 \<and> pixel < end \<and> pixel < 0 then Inl OutOfBoundsWrite
                 else decode_loop data encrypted init pixel_count r' end
                        (if pv \<noteq> 0 then write_run out (nat pixel) (nat (end - pixel)) pv
                         else out))
      else Inr out)"
  by pat_completeness auto

lemma read_byte_n_mono: "rd_n r \<le> rd_n (snd (read_byte data e i r))"
  by (simp add: read_byte_def Let_def)

lemma read_byte_n_step:
  "rd_n r < length data \<Longrightarrow> rd_n (snd (read_byte data e i r)) = rd_n r + 1"
  by (simp add: read_byte_def Let_def)

lemma read_stride_n_mono: "rd_n r \<le> rd_n (snd (read_stride data e i s r))"
proof -
  have m: "\<And>q. rd_n q \<le> rd_n (snd (read_byte data e i q))" by (rule read_byte_n_mono)
  show ?thesis
    unfolding read_stride_def
    by (auto simp: Let_def split: prod.splits
        intro: order_trans [OF m] dest!: arg_cong [where f = snd]
        simp del: )
      (metis m order_trans snd_conv)+
qed

lemma read_run_n_step:
  assumes "rd_n r < length data"
  shows "rd_n r < rd_n (snd (snd (read_run data e i r)))"
proof -
  obtain c r1 where b: "read_byte data e i r = (c, r1)" by force
  have r1: "rd_n r1 = rd_n r + 1" using read_byte_n_step [OF assms, of e i] b by simp
  obtain s r2 where b2: "read_byte data e i r1 = (s, r2)" by force
  have r2: "rd_n r1 \<le> rd_n r2" using read_byte_n_mono [of r1 data e i] b2 by simp
  obtain st r3 where b3: "read_stride data e i s r2 = (st, r3)" by force
  have r3: "rd_n r2 \<le> rd_n r3" using read_stride_n_mono [of r2 data e i s] b3 by simp
  show ?thesis
    using r1 r2 r3 by (simp add: read_run_def b b2 b3 Let_def)
qed

lemma read_run_measure:
  assumes "(code, stride, r') = read_run data e i r" and "rd_n r < length data"
  shows "length data - rd_n r' < length data - rd_n r"
proof -
  have "r' = snd (snd (read_run data e i r))"
    using assms(1) by (metis snd_conv)
  then have "rd_n r < rd_n r'" using read_run_n_step assms(2) by simp
  then show ?thesis using assms(2) by linarith
qed

termination decode_loop
  apply (relation "measure (\<lambda>(data, e, i, pc, r, pixel, out). length data - rd_n r)")
   apply simp
  apply (clarsimp simp: read_run_measure)
  done

declare decode_loop.simps [simp del]

text \<open>
  \<open>decrypt_and_decode_layer\<close>. A pointer argument is \<open>None\<close> for \<open>NULL\<close>; \<open>data\<close> with
  \<open>data_len\<close> is the list of its bytes, \<open>out_pixels\<close> the previous contents of the
  output buffer. \<open>Inr\<close> is the return value 1 with the new buffer contents,
  \<open>Inl InvalidArgument\<close> the return value 0.
\<close>

definition decrypt_and_decode_layer ::
  "u8 list option \<Rightarrow> u32 \<Rightarrow> u32 \<Rightarrow> int \<Rightarrow> u8 list option \<Rightarrow> decode_error + u8 list" where
  "decrypt_and_decode_layer data layer_index encryption_key pixel_count out_pixels =
     (case (data, out_pixels) of
        (Some d, Some out) \<Rightarrow>
          if length d = 0 \<or> pixel_count \<le> 0 then Inl InvalidArgument
          else decode_loop d (encryption_key \<noteq> 0) 
                 (if encryption_key \<noteq> 0 then key_init encryption_key else 0) pixel_count
                 (initial_reader layer_index encryption_key) 0
                 (write_run out 0 (nat pixel_count) 0)
      | _ \<Rightarrow> Inl InvalidArgument)"

text \<open>
  The same loop with a budget of iterations: \<open>None\<close> when the budget runs out before
  the loop condition fails.
\<close>

fun decode_loop_fuel ::
  "nat \<Rightarrow> u8 list \<Rightarrow> bool \<Rightarrow> u32 \<Rightarrow> int \<Rightarrow> reader \<Rightarrow> int \<Rightarrow> u8 list
   \<Rightarrow> (decode_error + u8 list) option" where
  "decode_loop_fuel 0 data encrypted init pixel_count r pixel out =
     (if rd_n r < length data \<and> pixel < pixel_count \<and> rd_ok r then None else Some (Inr out))"
| "decode_loop_fuel (Suc fuel) data encrypted init pixel_count r pixel out =
     (if rd_n r < length data \<and> pixel < pixel_count \<and> rd_ok r then
        (let (code, stride, r') = read_run data encrypted init r
         in if \<not> rd_ok r' then Some (Inr out)
            else
              let pv = pixel_value code;
                  end0 = i32 (pixel + stride);
                  end = (if end0 > pixel_count then pixel_count else end0)
              in if pv \<noteq> 0 \<and> pixel < end \<and> pixel < 0 then Some (Inl OutOfBoundsWrite)
                 else decode_loop_fuel fuel data encrypted init pixel_count r' end
                        (if pv \<noteq> 0 then write_run out (nat pixel) (nat (end - pixel)) pv
                         else out))
      else Some (Inr out))"

text \<open>The complete tokens of a stream, in order, as the loop body reads them.\<close>

function run_tokens :: "u8 list \<Rightarrow> bool \<Rightarrow> u32 \<Rightarrow> reader \<Rightarrow> (u8 \<times> int) list" where
  "run_tokens data encrypted init r =
     (if rd_n r < length data \<and> rd_ok r then
        (let (code, stride, r') = read_run data encrypted init r
         in if \<not> rd_ok r' then [] else (code, stride) # run_tokens data encrypted init r')
      else [])"
  by pat_completeness auto

termination run_tokens
  apply (relation "measure (\<lambda>(data, e, i, r). length data - rd_n r)")
   apply simp
  apply (clarsimp simp: read_run_measure)
  done

declare run_tokens.simps [simp del]


subsection \<open>The RLE grammar and the output semantics in the spec's words\<close>



text \<open>
  The output the spec describes for a list of runs: a zero-filled buffer of
  \<open>pixel_count\<close> bytes, the runs laid out one after the other from index 0, and
  whatever passes the end of the buffer dropped.
\<close>

definition expand_runs :: "(u8 \<times> int) list \<Rightarrow> u8 list" where
  "expand_runs runs = concat (map (\<lambda>(code, len). replicate (nat len) (pixel_value code)) runs)"

definition spec_clipped_pixels :: "int \<Rightarrow> (u8 \<times> int) list \<Rightarrow> u8 list" where
  "spec_clipped_pixels pixel_count runs =
     take (nat pixel_count) (expand_runs runs @ replicate (nat pixel_count) 0)"

text \<open>
  A stream for a buffer of \<open>2^31 - 1\<close> pixels: nine runs of value 0 and length
  \<open>0x0FFFFFFF\<close>, then one pixel of value \<open>0xFF\<close>.
\<close>

definition overflow_stream :: "u8 list" where
  "overflow_stream = concat (replicate 9 [0x80, 0xEF, 0xFF, 0xFF, 0xFF]) @ [0x7F]"

subsection \<open>The key stream\<close>

text \<open>
  The spec's reading of the cipher, in closed form: the key in force at read position
  \<open>i\<close> is the initial key plus \<open>init\<close> once for every four bytes already read, and the
  byte at position \<open>i\<close> is XORed with byte number \<open>i mod 4\<close> of that key.
\<close>

definition spec_key_at :: "u32 \<Rightarrow> u32 \<Rightarrow> nat \<Rightarrow> u32" where
  "spec_key_at key0 init i = key0 + of_nat (i div 4) * init"

definition spec_keystream_byte :: "u32 \<Rightarrow> u32 \<Rightarrow> nat \<Rightarrow> u8" where
  "spec_keystream_byte key0 init i = ucast (drop_bit (8 * (i mod 4)) (spec_key_at key0 init i) AND 0xFF)"

definition spec_decrypt :: "u32 \<Rightarrow> u32 \<Rightarrow> u8 list \<Rightarrow> u8 list" where
  "spec_decrypt key0 init data = map (\<lambda>i. data ! i XOR spec_keystream_byte key0 init i) [0..<length data]"

definition sync_reader :: "u32 \<Rightarrow> u32 \<Rightarrow> nat \<Rightarrow> bool \<Rightarrow> reader" where
  "sync_reader key0 init i b = \<lparr>rd_n = i, rd_key = spec_key_at key0 init i, rd_kbi = i mod 4, rd_ok = b\<rparr>"

definition plain_reader :: "nat \<Rightarrow> bool \<Rightarrow> reader" where
  "plain_reader i b = \<lparr>rd_n = i, rd_key = 0, rd_kbi = 0, rd_ok = b\<rparr>"

definition plainp :: "reader \<Rightarrow> bool" where
  "plainp p \<longleftrightarrow> rd_key p = 0 \<and> rd_kbi p = 0"

definition sync_of :: "u32 \<Rightarrow> u32 \<Rightarrow> reader \<Rightarrow> reader" where
  "sync_of key0 init p = sync_reader key0 init (rd_n p) (rd_ok p)"

section \<open>png\_encode.c: the CPU scanline builder\<close>

text \<open>
  The conditional read \<open>(si >= 0 && si < src_width) ? grey_pixels[row_offset + si] : 0\<close>.
\<close>

definition subpixel :: "u8 list \<Rightarrow> int \<Rightarrow> int \<Rightarrow> int \<Rightarrow> u8" where
  "subpixel grey src_width row_offset si =
     (if si \<ge> 0 \<and> si < src_width then grey ! nat (row_offset + si) else 0)"

definition pad_left_of :: "int \<Rightarrow> int \<Rightarrow> int" where
  "pad_left_of required_subpixels src_width =
     (let pad_total = i32 (required_subpixels - src_width)
      in if pad_total > 0 then pad_total div 2 else 0)"

text \<open>
  The body of the RGB loop over \<open>x\<close>; the state is the buffer and the running index
  \<open>dst\<close>.
\<close>

definition rgb_pixel ::
  "u8 list \<Rightarrow> int \<Rightarrow> int \<Rightarrow> int \<Rightarrow> nat \<Rightarrow> u8 list \<times> nat \<Rightarrow> u8 list \<times> nat" where
  "rgb_pixel grey src_width pad_left row_offset x s =
     (case s of (out, dst) \<Rightarrow>
        let si = int x * 3 - pad_left
        in (out[dst := subpixel grey src_width row_offset si,
                dst + 1 := subpixel grey src_width row_offset (si + 1),
                dst + 2 := subpixel grey src_width row_offset (si + 2)],
            dst + 3))"

definition rgb_row ::
  "u8 list \<Rightarrow> int \<Rightarrow> nat \<Rightarrow> nat \<Rightarrow> int \<Rightarrow> nat \<Rightarrow> u8 list \<Rightarrow> u8 list" where
  "rgb_row grey src_width out_width scanline_size pad_left y out =
     (let row_offset = int y * src_width;
          dst = y * scanline_size
      in fst (fold (rgb_pixel grey src_width pad_left row_offset) [0..<out_width]
                (out[dst := 0], dst + 1)))"

text \<open>The body of the greyscale loop over \<open>x\<close>: \<open>(uint8_t)((a + b) >> 1)\<close>.\<close>

definition grey_pixel ::
  "u8 list \<Rightarrow> int \<Rightarrow> int \<Rightarrow> int \<Rightarrow> nat \<Rightarrow> nat \<Rightarrow> u8 list \<Rightarrow> u8 list" where
  "grey_pixel grey src_width pad_left row_offset dst_row x out =
     (let si = int x * 2 - pad_left;
          a = subpixel grey src_width row_offset si;
          b = subpixel grey src_width row_offset (si + 1)
      in out[dst_row + 1 + x := ucast (drop_bit 1 ((ucast a :: u32) + ucast b))])"

definition grey_row ::
  "u8 list \<Rightarrow> int \<Rightarrow> nat \<Rightarrow> nat \<Rightarrow> int \<Rightarrow> nat \<Rightarrow> u8 list \<Rightarrow> u8 list" where
  "grey_row grey src_width out_width scanline_size pad_left y out =
     (let row_offset = int y * src_width;
          dst_row = y * scanline_size
      in fold (grey_pixel grey src_width pad_left row_offset dst_row) [0..<out_width]
           (out[dst_row := 0]))"

text \<open>The mapping step: the \<open>if (channels == 3) \<dots> else \<dots>\<close> with its loops over \<open>y\<close>.\<close>

definition map_pixels ::
  "u8 list \<Rightarrow> int \<Rightarrow> nat \<Rightarrow> nat \<Rightarrow> int \<Rightarrow> nat \<Rightarrow> u8 list \<Rightarrow> u8 list" where
  "map_pixels grey src_width height out_width channels scanline_size out =
     (if channels = 3 then
        (let pad_left = pad_left_of (i32 (int out_width * 3)) src_width
         in fold (rgb_row grey src_width out_width scanline_size pad_left) [0..<height] out)
      else
        (let pad_left = pad_left_of (i32 (int out_width * 2)) src_width
         in fold (grey_row grey src_width out_width scanline_size pad_left) [0..<height] out))"

text \<open>
  The Up filter, in place: the loop over \<open>y = height - 1, \<dots>, 1\<close> with its inner loop
  over \<open>i = 1, \<dots>, bytes_per_row\<close>, then \<open>out_scanlines[0] = 2\<close>. The difference is
  taken modulo 256.
\<close>

definition up_filter_row :: "nat \<Rightarrow> nat \<Rightarrow> nat \<Rightarrow> u8 list \<Rightarrow> u8 list" where
  "up_filter_row scanline_size bytes_per_row y out =
     (let cur_start = y * scanline_size;
          prev_start = (y - 1) * scanline_size
      in fold (\<lambda>i buf. buf[cur_start + i := buf ! (cur_start + i) - buf ! (prev_start + i)])
           [1..<Suc bytes_per_row] (out[cur_start := 2]))"

definition up_filter :: "nat \<Rightarrow> nat \<Rightarrow> nat \<Rightarrow> u8 list \<Rightarrow> u8 list" where
  "up_filter height scanline_size bytes_per_row out =
     (fold (up_filter_row scanline_size bytes_per_row) (rev [1..<height]) out)[0 := 2]"

text \<open>
  \<open>build_png_scanlines\<close>: \<open>None\<close> is the return value 0, \<open>Some\<close> the return value 1
  with the new contents of \<open>out_scanlines\<close>. The three sizes are 32-bit products;
  under the guard \<open>out_len \<ge> required_len\<close> and with buffers as long as the
  arguments say, no index computed in the loops leaves the 32-bit range.
\<close>

definition build_png_scanlines ::
  "u8 list option \<Rightarrow> int \<Rightarrow> int \<Rightarrow> int \<Rightarrow> int \<Rightarrow> u8 list option \<Rightarrow> int \<Rightarrow> u8 list option" where
  "build_png_scanlines grey_pixels src_width height out_width channels out_scanlines out_len =
     (case (grey_pixels, out_scanlines) of
        (Some grey, Some out) \<Rightarrow>
          if src_width \<le> 0 \<or> height \<le> 0 \<or> out_width \<le> 0 \<or> (channels \<noteq> 1 \<and> channels \<noteq> 3)
          then None
          else
            let bytes_per_row = i32 (out_width * channels);
                scanline_size = i32 (1 + bytes_per_row);
                required_len = i32 (scanline_size * height)
            in if out_len < required_len then None
               else Some (up_filter (nat height) (nat scanline_size) (nat bytes_per_row)
                            (map_pixels grey src_width (nat height) (nat out_width) channels
                               (nat scanline_size) out))
      | _ \<Rightarrow> None)"

text \<open>The buffer between the two steps: the mapped rows, not yet filtered.\<close>

definition mapped_scanlines ::
  "u8 list \<Rightarrow> int \<Rightarrow> int \<Rightarrow> int \<Rightarrow> int \<Rightarrow> u8 list \<Rightarrow> u8 list" where
  "mapped_scanlines grey src_width height out_width channels out =
     map_pixels grey src_width (nat height) (nat out_width) channels
       (nat (1 + out_width * channels)) out"

subsection \<open>The mapping in the spec's words\<close>

text \<open>
  \<open>pad_left = max(0, pad_total / 2)\<close> with \<open>pad_total = required - src_width\<close>, and
  \<open>grey[y, s]\<close>, where a subscript outside \<open>[0, src_width)\<close> contributes 0.
\<close>

definition spec_pad_left :: "int \<Rightarrow> int \<Rightarrow> int" where
  "spec_pad_left required src_width = max 0 ((required - src_width) div 2)"

definition spec_grey_at :: "u8 list \<Rightarrow> int \<Rightarrow> nat \<Rightarrow> int \<Rightarrow> u8" where
  "spec_grey_at grey src_width y s =
     (if 0 \<le> s \<and> s < src_width then grey ! (y * nat src_width + nat s) else 0)"

text \<open>
  The inputs the builder is meant for: positive dimensions, one or three channels, a
  source buffer of \<open>src_width * height\<close> bytes, an output buffer of at least
  \<open>out_len\<close> bytes with \<open>out_len\<close> no less than the size of the rows, and all sizes
  (also \<open>required_subpixels\<close>) within the 32-bit range.
\<close>

definition valid_scanline_args ::
  "u8 list \<Rightarrow> int \<Rightarrow> int \<Rightarrow> int \<Rightarrow> int \<Rightarrow> u8 list \<Rightarrow> int \<Rightarrow> bool" where
  "valid_scanline_args grey src_width height out_width channels out out_len \<longleftrightarrow>
     0 < src_width \<and> 0 < height \<and> 0 < out_width \<and> (channels = 1 \<or> channels = 3)
     \<and> int (length grey) = src_width * height \<and> src_width * height < 2 ^ 31
     \<and> out_width * (if channels = 3 then 3 else 2) < 2 ^ 31
     \<and> (1 + out_width * channels) * height \<le> out_len
     \<and> out_len \<le> int (length out) \<and> out_len < 2 ^ 31"

section \<open>area\_stats.c: connected-component statistics\<close>

text \<open>
  The visited bitset is an array of 32-bit words; a pixel index is a non-negative
  \<open>int\<close>, here a natural number.
\<close>

definition is_visited :: "u32 list \<Rightarrow> nat \<Rightarrow> bool" where
  "is_visited visited idx \<longleftrightarrow> visited ! (drop_bit 5 idx) AND push_bit (idx AND 31) 1 \<noteq> 0"

definition mark_visited :: "u32 list \<Rightarrow> nat \<Rightarrow> u32 list" where
  "mark_visited visited idx =
     visited[drop_bit 5 idx := visited ! (drop_bit 5 idx) OR push_bit (idx AND 31) 1]"

text \<open>
  The packing of a coordinate into one \<open>int32\<close> stack entry, \<open>(y << 16) | (x & 0xFFFF)\<close>,
  and its unpacking, \<open>(packed >> 16) & 0xFFFF\<close> and \<open>packed & 0xFFFF\<close>. The shift to the
  left is a 32-bit result; the shift to the right of a negative value is arithmetic.
\<close>

definition pack_coord :: "int \<Rightarrow> int \<Rightarrow> int" where
  "pack_coord x y = i32 (push_bit 16 y OR (x AND 0xFFFF))"

definition unpack_x :: "int \<Rightarrow> int" where
  "unpack_x packed = packed AND 0xFFFF"

definition unpack_y :: "int \<Rightarrow> int" where
  "unpack_y packed = drop_bit 16 packed AND 0xFFFF"

text \<open>
  The result structure. The \<open>double\<close> fields are modelled as real numbers: sums,
  products and comparisons are exact.
\<close>

record AreaStatsResult =
  total_solid_area :: real
  largest_area :: real
  smallest_area :: real
  min_x :: int
  min_y :: int
  max_x :: int
  max_y :: int
  area_count :: int

text \<open>
  The local variables of \<open>compute_layer_area_stats\<close> that the loops change. The stack
  is a list, its top at the head; \<open>calloc\<close> and \<open>realloc\<close> are taken to succeed, so
  the capacity of the stack is not part of the state.
\<close>

record area_state =
  as_visited :: "u32 list"
  as_stack :: "int list"
  as_island_pixels :: int
  as_min_x :: int
  as_min_y :: int
  as_max_x :: int
  as_max_y :: int
  as_total_area :: real
  as_largest_area :: real
  as_smallest_area :: real
  as_area_count :: int

text \<open>
  Pushing a pixel: the stack entry, the visited bit, \<open>island_pixels++\<close> and the four
  comparisons that widen the bounding box. The root pixel and a neighbour do the same
  four things (in a different order, which does not matter).
\<close>

definition push_pixel :: "int \<Rightarrow> int \<Rightarrow> nat \<Rightarrow> area_state \<Rightarrow> area_state" where
  "push_pixel x y idx st =
     st\<lparr>as_stack := pack_coord x y # as_stack st,
        as_visited := mark_visited (as_visited st) idx,
        as_island_pixels := i32 (as_island_pixels st + 1),
        as_min_x := (if x < as_min_x st then x else as_min_x st),
        as_max_x := (if x > as_max_x st then x else as_max_x st),
        as_min_y := (if y < as_min_y st then y else as_min_y st),
        as_max_y := (if y > as_max_y st then y else as_max_y st)\<rparr>"

definition neighbour_offsets :: "(int \<times> int) list" where
  "neighbour_offsets = [(-1, -1), (0, -1), (1, -1), (-1, 0), (1, 0), (-1, 1), (0, 1), (1, 1)]"

text \<open>The body of the loop over the eight neighbours of \<open>(cx, cy)\<close>.\<close>

definition visit_neighbour ::
  "u8 list \<Rightarrow> int \<Rightarrow> int \<Rightarrow> int \<Rightarrow> int \<Rightarrow> int \<times> int \<Rightarrow> area_state \<Rightarrow> area_state" where
  "visit_neighbour pixels width height cx cy d st =
     (let nx = cx + fst d;
          ny = cy + snd d
      in if nx < 0 \<or> nx \<ge> width \<or> ny < 0 \<or> ny \<ge> height then st
         else
           let n_idx = nat (ny * width + nx)
           in if pixels ! n_idx = 0 \<or> is_visited (as_visited st) n_idx then st
              else push_pixel nx ny n_idx st)"

text \<open>One iteration of \<open>while (stack_len > 0)\<close>.\<close>

definition fill_step :: "u8 list \<Rightarrow> int \<Rightarrow> int \<Rightarrow> area_state \<Rightarrow> area_state" where
  "fill_step pixels width height st =
     (case as_stack st of
        [] \<Rightarrow> st
      | packed # rest \<Rightarrow>
          let cy = unpack_y packed;
              cx = unpack_x packed
          in fold (visit_neighbour pixels width height cx cy) neighbour_offsets
               (st\<lparr>as_stack := rest\<rparr>))"

text \<open>The flood fill; \<open>None\<close> stands for a loop that does not end.\<close>

partial_function (option) flood_fill ::
  "u8 list \<Rightarrow> int \<Rightarrow> int \<Rightarrow> area_state \<Rightarrow> area_state option" where
  "flood_fill pixels width height st =
     (if as_stack st = [] then Some st
      else flood_fill pixels width height (fill_step pixels width height st))"

declare flood_fill.simps [code]

text \<open>The statements after the fill: the area of the island and the aggregates.\<close>

definition finish_island :: "real \<Rightarrow> area_state \<Rightarrow> area_state" where
  "finish_island pixel_area st =
     (let island_area = real_of_int (as_island_pixels st) * pixel_area
      in st\<lparr>as_total_area := as_total_area st + island_area,
            as_largest_area :=
              (if island_area > as_largest_area st then island_area else as_largest_area st),
            as_smallest_area :=
              (if as_area_count st = 0 \<or> island_area < as_smallest_area st then island_area
               else as_smallest_area st),
            as_area_count := i32 (as_area_count st + 1)\<rparr>)"

text \<open>The body of the scan over \<open>x\<close>, for the pixel \<open>(x, y)\<close>.\<close>

definition scan_pixel ::
  "u8 list \<Rightarrow> int \<Rightarrow> int \<Rightarrow> real \<Rightarrow> nat \<Rightarrow> nat \<Rightarrow> area_state \<Rightarrow> area_state option" where
  "scan_pixel pixels width height pixel_area y x st =
     (let root_idx = nat (int y * width + int x)
      in if pixels ! root_idx = 0 \<or> is_visited (as_visited st) root_idx then Some st
         else
           (case flood_fill pixels width height
                   (push_pixel (int x) (int y) root_idx (st\<lparr>as_island_pixels := 0\<rparr>)) of
              None \<Rightarrow> None
            | Some st1 \<Rightarrow> Some (finish_island pixel_area st1)))"

text \<open>A counted loop whose body may not return.\<close>

fun ofold :: "('a \<Rightarrow> 's \<Rightarrow> 's option) \<Rightarrow> 'a list \<Rightarrow> 's \<Rightarrow> 's option" where
  "ofold f [] s = Some s"
| "ofold f (x # xs) s = (case f x s of None \<Rightarrow> None | Some s' \<Rightarrow> ofold f xs s')"

definition scan_row ::
  "u8 list \<Rightarrow> int \<Rightarrow> int \<Rightarrow> real \<Rightarrow> nat \<Rightarrow> area_state \<Rightarrow> area_state option" where
  "scan_row pixels width height pixel_area y st =
     ofold (scan_pixel pixels width height pixel_area y) [0..<nat width] st"

definition scan_layer ::
  "u8 list \<Rightarrow> int \<Rightarrow> int \<Rightarrow> real \<Rightarrow> area_state \<Rightarrow> area_state option" where
  "scan_layer pixels width height pixel_area st =
     ofold (scan_row pixels width height pixel_area) [0..<nat height] st"

text \<open>
  \<open>compute_layer_area_stats\<close>. \<open>None\<close>: the call does not return; \<open>Some None\<close>: it
  returns 0; \<open>Some (Some r)\<close>: it returns 1 and has stored \<open>r\<close>. The number of words
  of the bitset is \<open>(pixel_count + 31) >> 5\<close> in 32-bit arithmetic; a negative number,
  converted to \<open>size_t\<close>, is a request that \<open>calloc\<close> refuses.
\<close>

definition compute_layer_area_stats ::
  "u8 list option \<Rightarrow> int \<Rightarrow> int \<Rightarrow> real \<Rightarrow> real \<Rightarrow> AreaStatsResult option
   \<Rightarrow> AreaStatsResult option option" where
  "compute_layer_area_stats pixels width height x_pixel_size_mm y_pixel_size_mm out_result =
     (case (pixels, out_result) of
        (Some px, Some _) \<Rightarrow>
          if width \<le> 0 \<or> height \<le> 0 then Some None
          else
            let pixel_count = i32 (width * height);
                visited_words = drop_bit 5 (i32 (pixel_count + 31))
            in if visited_words < 0 then Some None
               else
                 (case scan_layer px width height (x_pixel_size_mm * y_pixel_size_mm)
                         \<lparr>as_visited = replicate (nat visited_words) 0, as_stack = [],
                          as_island_pixels = 0,
                          as_min_x = width, as_min_y = height, as_max_x = 0, as_max_y = 0,
                          as_total_area = 0, as_largest_area = 0, as_smallest_area = 0,
                          as_area_count = 0\<rparr> of
                    None \<Rightarrow> None
                  | Some st \<Rightarrow>
                      if as_area_count st = 0 then
                        Some (Some \<lparr>total_solid_area = 0, largest_area = 0, smallest_area = 0,
                                    min_x = 0, min_y = 0, max_x = 0, max_y = 0, area_count = 0\<rparr>)
                      else
                        Some (Some \<lparr>total_solid_area = as_total_area st,
                                    largest_area = as_largest_area st,
                                    smallest_area = as_smallest_area st,
                                    min_x = as_min_x st, min_y = as_min_y st,
                                    max_x = as_max_x st, max_y = as_max_y st,
                                    area_count = as_area_count st\<rparr>))
      | _ \<Rightarrow> Some None)"

subsection \<open>The quantities that the flood fill and the scan preserve\<close>

text \<open>
  For a layer of \<open>pc\<close> pixels: the pixels whose bit is set in the bitset, those whose
  bit is clear, and the measure that every iteration of the fill loop decreases (a pop
  removes one stack entry; a push adds one but marks a pixel).
\<close>

definition visited_set :: "nat \<Rightarrow> area_state \<Rightarrow> nat set" where
  "visited_set pc st = {i. i < pc \<and> is_visited (as_visited st) i}"

definition unvisited_set :: "nat \<Rightarrow> area_state \<Rightarrow> nat set" where
  "unvisited_set pc st = {i. i < pc \<and> \<not> is_visited (as_visited st) i}"

definition fill_measure :: "nat \<Rightarrow> area_state \<Rightarrow> nat" where
  "fill_measure pc st = 2 * card (unvisited_set pc st) + length (as_stack st)"

text \<open>
  What a fill leaves alone: the size of the bitset, the bits already set, and the
  aggregates.
\<close>

definition fill_extends :: "area_state \<Rightarrow> area_state \<Rightarrow> bool" where
  "fill_extends st st' \<longleftrightarrow>
     length (as_visited st') = length (as_visited st)
     \<and> (\<forall>j. is_visited (as_visited st) j \<longrightarrow> is_visited (as_visited st') j)
     \<and> as_total_area st' = as_total_area st \<and> as_largest_area st' = as_largest_area st
     \<and> as_smallest_area st' = as_smallest_area st \<and> as_area_count st' = as_area_count st"

text \<open>
  The invariant of the scan before the pixel of index \<open>k\<close>: the bitset covers the layer,
  the stack is empty, the count of islands is at most the number of marked pixels, it is
  zero exactly when no pixel is marked, and exactly when the first \<open>k\<close> pixels are zero.
\<close>

definition scan_inv :: "u8 list \<Rightarrow> nat \<Rightarrow> nat \<Rightarrow> area_state \<Rightarrow> bool" where
  "scan_inv pixels pc k st \<longleftrightarrow>
     pc \<le> 32 * length (as_visited st) \<and> as_stack st = []
     \<and> 0 \<le> as_area_count st \<and> nat (as_area_count st) \<le> card (visited_set pc st)
     \<and> ((as_area_count st = 0) = (visited_set pc st = {}))
     \<and> ((as_area_count st = 0) = (list_all (\<lambda>p. p = 0) (take k pixels)))"

text \<open>The values of the locals at the start of the scan, for a bitset of \<open>n\<close> words.\<close>

definition initial_area_state :: "int \<Rightarrow> int \<Rightarrow> nat \<Rightarrow> area_state" where
  "initial_area_state width height n =
     \<lparr>as_visited = replicate n 0, as_stack = [], as_island_pixels = 0,
      as_min_x = width, as_min_y = height, as_max_x = 0, as_max_y = 0,
      as_total_area = 0, as_largest_area = 0, as_smallest_area = 0, as_area_count = 0\<rparr>"

section \<open>Properties of the RLE decoder\<close>







lemma plainp_plain_reader [simp]: "plainp (plain_reader i b)"
  by (simp add: plainp_def plain_reader_def)

lemma sync_of_plain [simp]: "sync_of key0 init (plain_reader i b) = sync_reader key0 init i b"
  by (simp add: sync_of_def plain_reader_def)

lemma length_spec_decrypt [simp]: "length (spec_decrypt key0 init data) = length data"
  by (simp add: spec_decrypt_def)




lemma sync_of_ok [simp]: "rd_ok (sync_of key0 init p) = rd_ok p"
  by (simp add: sync_of_def sync_reader_def)

lemma sync_of_n [simp]: "rd_n (sync_of key0 init p) = rd_n p"
  by (simp add: sync_of_def sync_reader_def)









subsection \<open>Termination of the decode loop\<close>

lemma read_byte_progress:
  "(rd_n (snd (read_byte data e i r)) = rd_n r + 1 \<and> rd_ok (snd (read_byte data e i r)) = rd_ok r)
   \<or> \<not> rd_ok (snd (read_byte data e i r))"
  by (simp add: read_byte_def Let_def)

lemma decode_loop_fuel_enough:
  "length data - rd_n r \<le> fuel \<Longrightarrow>
   decode_loop_fuel fuel data e init pc r pixel out = Some (decode_loop data e init pc r pixel out)"
proof (induction data e init pc r pixel out arbitrary: fuel rule: decode_loop.induct)
  case (1 data e init pc r pixel out)
  obtain c st r' where rr: "read_run data e init r = (c, st, r')" by (metis prod_cases3)
  show ?case
  proof (cases "rd_n r < length data \<and> pixel < pc \<and> rd_ok r")
    case False
    have "decode_loop data e init pc r pixel out = Inr out"
      by (subst decode_loop.simps) (simp only: False if_False)
    moreover have "decode_loop_fuel fuel data e init pc r pixel out = Some (Inr out)"
      using False by (cases fuel) auto
    ultimately show ?thesis by simp
  next
    case c: True
    then obtain f where f: "fuel = Suc f" using 1(2) by (cases fuel) auto
    have m: "length data - rd_n r' < length data - rd_n r"
      using read_run_measure [OF rr [symmetric]] c by simp
    then have fe: "length data - rd_n r' \<le> f" using 1(2) f by simp
    show ?thesis
    proof (cases "rd_ok r'")
      case False
      then show ?thesis using c
        by (subst decode_loop.simps) (simp add: f rr)
    next
      case True
      define pv where "pv = pixel_value c"
      define e0 where "e0 = i32 (pixel + st)"
      define en where "en = (if e0 > pc then pc else e0)"
      have ok': "\<not> \<not> rd_ok r'" using True by simp
      have ih: "decode_loop_fuel f data e init pc r' en
                  (if pv \<noteq> 0 then write_run out (nat pixel) (nat (en - pixel)) pv else out) =
                Some (decode_loop data e init pc r' en
                  (if pv \<noteq> 0 then write_run out (nat pixel) (nat (en - pixel)) pv else out))"
        if "\<not> (pv \<noteq> 0 \<and> pixel < en \<and> pixel < 0)"
        by (rule 1(1) [OF c rr [symmetric] refl refl ok' pv_def e0_def en_def that fe])
      have L: "decode_loop data e init pc r pixel out =
                (if pv \<noteq> 0 \<and> pixel < en \<and> pixel < 0 then Inl OutOfBoundsWrite
                 else decode_loop data e init pc r' en
                  (if pv \<noteq> 0 then write_run out (nat pixel) (nat (en - pixel)) pv else out))"
        using c True
        by (subst decode_loop.simps) (simp add: rr Let_def pv_def e0_def en_def)
      have R: "decode_loop_fuel fuel data e init pc r pixel out =
                (if pv \<noteq> 0 \<and> pixel < en \<and> pixel < 0 then Some (Inl OutOfBoundsWrite)
                 else decode_loop_fuel f data e init pc r' en
                  (if pv \<noteq> 0 then write_run out (nat pixel) (nat (en - pixel)) pv else out))"
        using c True
        by (simp add: f rr Let_def pv_def e0_def en_def)
      show ?thesis
      proof (cases "pv \<noteq> 0 \<and> pixel < en \<and> pixel < 0")
        case True
        show ?thesis by (simp only: L R if_P [OF True])
      next
        case False
        show ?thesis by (simp only: L R if_not_P [OF False] ih [OF False])
      qed
    qed
  qed
qed

text \<open>
  Claim C10. The decode loop needs at most as many iterations as there are unread
  input bytes: with that budget the fuelled loop returns, and returns what the loop
  returns. Each iteration moves the read position forward (also when the run has
  length 0), and \<open>read_byte\<close> either advances the position by one or clears \<open>ok\<close>.
\<close>

theorem decode_loop_terminates:
  "decode_loop_fuel (length data - rd_n r + k) data e init pixel_count r pixel out =
     Some (decode_loop data e init pixel_count r pixel out)
   \<and> decode_loop_fuel (length data) data e init pixel_count
         (initial_reader layer_index encryption_key) 0 out =
       Some (decode_loop data e init pixel_count (initial_reader layer_index encryption_key) 0 out)
   \<and> (rd_n r < length data \<longrightarrow> rd_n r < rd_n (snd (snd (read_run data e init r))))
   \<and> ((rd_n (snd (read_byte data e init r)) = rd_n r + 1
        \<and> rd_ok (snd (read_byte data e init r)) = rd_ok r)
       \<or> \<not> rd_ok (snd (read_byte data e init r)))"
  using decode_loop_fuel_enough [of data r "length data - rd_n r + k" e init pixel_count pixel out]
    decode_loop_fuel_enough [of data "initial_reader layer_index encryption_key" "length data"
      e init pixel_count 0 out]
    read_run_n_step [of r data e init] read_byte_progress [of data e init r]
  by simp


theorem decode_loop_terminates_witness:
  "decode_loop_fuel 3 [0x81, 0x00, 0x05] False 0 4 (initial_reader 0 0) 0 [0, 0, 0, 0] =
     Some (Inr [11, 0, 0, 0])
   \<and> read_run [0x81, 0x00, 0x05] False 0 (initial_reader 0 0) =
       (1, 0, \<lparr>rd_n = 2, rd_key = 0, rd_kbi = 0, rd_ok = True\<rparr>)
   \<and> rd_n (initial_reader 0 0) < length [0x81, 0x00, 0x05 :: u8]
   \<and> rd_n (initial_reader 0 0) < rd_n (snd (snd (read_run [0x81, 0x00, 0x05] False 0 (initial_reader 0 0))))"
proof -
  have a: "decode_loop [0x81, 0x00, 0x05] False 0 4 (initial_reader 0 0) 0 [0, 0, 0, 0] = Inr [11, 0, 0, 0]"
    by code_simp
  have b: "read_run [0x81, 0x00, 0x05] False 0 (initial_reader 0 0) =
       (1, 0, \<lparr>rd_n = 2, rd_key = 0, rd_kbi = 0, rd_ok = True\<rparr>)"
    by code_simp
  have c: "rd_n (initial_reader 0 0) = 0" by (simp add: initial_reader_def)
  have l: "length [0x81, 0x00, 0x05 :: u8] - rd_n (initial_reader 0 0) + 0 = 3"
    by (simp add: c)
  note T = decode_loop_terminates [of "[0x81, 0x00, 0x05]" "initial_reader 0 0" 0 False 0 4 0
      "[0, 0, 0, 0]" 0 0]
  have f: "decode_loop_fuel 3 [0x81, 0x00, 0x05] False 0 4 (initial_reader 0 0) 0 [0, 0, 0, 0] =
     Some (Inr [11, 0, 0, 0])"
    using T [unfolded l a] by (rule conjunct1)
  have lt: "rd_n (initial_reader 0 0) < length [0x81, 0x00, 0x05 :: u8]" by (simp add: c)
  have g: "rd_n (initial_reader 0 0) < rd_n (snd (snd (read_run [0x81, 0x00, 0x05] False 0 (initial_reader 0 0))))"
    using T lt by blast
  show ?thesis using f b lt g by blast
qed


subsection \<open>The run grammar\<close>

lemma stride2_or:
  "push_bit 8 (ucast (s :: u8) :: u32) + ucast (b0 :: u8) = push_bit 8 (ucast s) OR ucast b0"
  by (rule disjunctive_add) (auto simp: bit_simps dest: bit_imp_le_length)

lemma stride3_or:
  "push_bit 16 (ucast (s :: u8) :: u32) + push_bit 8 (ucast (b0 :: u8)) + ucast (b1 :: u8)
   = push_bit 16 (ucast s) OR push_bit 8 (ucast b0) OR ucast b1"
proof -
  have "push_bit 16 (ucast s :: u32) + push_bit 8 (ucast b0) = push_bit 16 (ucast s) OR push_bit 8 (ucast b0)"
    by (rule disjunctive_add) (auto simp: bit_simps dest: bit_imp_le_length)
  moreover have "(push_bit 16 (ucast s :: u32) OR push_bit 8 (ucast b0)) + ucast b1
      = (push_bit 16 (ucast s) OR push_bit 8 (ucast b0)) OR ucast b1"
    by (rule disjunctive_add) (auto simp: bit_simps dest: bit_imp_le_length)
  ultimately show ?thesis by (simp add: or.assoc)
qed

lemma stride4_or:
  "push_bit 24 (ucast (s :: u8) :: u32) + push_bit 16 (ucast (b0 :: u8)) + push_bit 8 (ucast (b1 :: u8)) + ucast (b2 :: u8)
   = push_bit 24 (ucast s) OR push_bit 16 (ucast b0) OR push_bit 8 (ucast b1) OR ucast b2"
proof -
  have "push_bit 24 (ucast s :: u32) + push_bit 16 (ucast b0) = push_bit 24 (ucast s) OR push_bit 16 (ucast b0)"
    by (rule disjunctive_add) (auto simp: bit_simps dest: bit_imp_le_length)
  moreover have "(push_bit 24 (ucast s :: u32) OR push_bit 16 (ucast b0)) + push_bit 8 (ucast b1)
      = (push_bit 24 (ucast s) OR push_bit 16 (ucast b0)) OR push_bit 8 (ucast b1)"
    by (rule disjunctive_add) (auto simp: bit_simps dest: bit_imp_le_length)
  moreover have "((push_bit 24 (ucast s :: u32) OR push_bit 16 (ucast b0)) OR push_bit 8 (ucast b1)) + ucast b2
      = ((push_bit 24 (ucast s) OR push_bit 16 (ucast b0)) OR push_bit 8 (ucast b1)) OR ucast b2"
    by (rule disjunctive_add) (auto simp: bit_simps dest: bit_imp_le_length)
  ultimately show ?thesis by (simp add: or.assoc)
qed

lemma sint_low_bits:
  fixes w :: u32
  assumes "\<And>n. bit w n \<Longrightarrow> n < 28"
  shows "sint w = uint w" and "uint w < 2 ^ 28"
proof -
  have "take_bit 28 w = w"
    by (rule bit_eqI) (use assms in \<open>auto simp: bit_simps\<close>)
  then have "uint w = take_bit 28 (uint w)" 
    by (metis unsigned_take_bit_eq)
  then show u: "uint w < 2 ^ 28"
    by (metis take_bit_int_less_exp)
  have "\<not> bit (uint w) 31" using assms [of 31] by (auto simp: bit_uint_iff)
  then have "sint w = take_bit 31 (uint w)"
    by (simp add: sint_uint signed_take_bit_eq_if_positive)
  also have "\<dots> = uint w"
    using u by (simp add: take_bit_int_eq_self)
  finally show "sint w = uint w" .
qed

lemma and_mask_bits:
  "bit (ucast ((s :: u8) AND 0x0F) :: u32) n \<Longrightarrow> n < 4"
  "bit (ucast ((s :: u8) AND 0x1F) :: u32) n \<Longrightarrow> n < 5"
  "bit (ucast ((s :: u8) AND 0x3F) :: u32) n \<Longrightarrow> n < 6"
proof -
  have m: "(0x0F :: u8) = mask 4" "(0x1F :: u8) = mask 5" "(0x3F :: u8) = mask 6"
    by (simp_all add: mask_eq_exp_minus_1)
  show "bit (ucast ((s :: u8) AND 0x0F) :: u32) n \<Longrightarrow> n < 4"
    unfolding m by (auto simp: bit_simps)
  show "bit (ucast ((s :: u8) AND 0x1F) :: u32) n \<Longrightarrow> n < 5"
    unfolding m by (auto simp: bit_simps)
  show "bit (ucast ((s :: u8) AND 0x3F) :: u32) n \<Longrightarrow> n < 6"
    unfolding m by (auto simp: bit_simps)
qed

lemma read_stride_range:
  "0 \<le> fst (read_stride data e i s r) \<and> fst (read_stride data e i s r) < 2 ^ 28"
proof -
  obtain b0 r1 where 1: "read_byte data e i r = (b0, r1)" by force
  obtain b1 r2 where 2: "read_byte data e i r1 = (b1, r2)" by force
  obtain b2 r3 where 3: "read_byte data e i r2 = (b2, r3)" by force
  have a: "\<And>n. bit (ucast s :: u32) n \<Longrightarrow> n < 28"
    by (auto simp: bit_simps dest: bit_imp_le_length)
  have b: "\<And>n. bit (push_bit 8 (ucast (s AND 0x3F) :: u32) + ucast b0) n \<Longrightarrow> n < 28"
    unfolding stride2_or using and_mask_bits(3) [of s]
    by (fastforce simp: bit_simps dest: bit_imp_le_length)
  have c: "\<And>n. bit (push_bit 16 (ucast (s AND 0x1F) :: u32) + push_bit 8 (ucast b0) + ucast b1) n \<Longrightarrow> n < 28"
    unfolding stride3_or using and_mask_bits(2) [of s]
    by (fastforce simp: bit_simps dest: bit_imp_le_length)
  have d: "\<And>n. bit (push_bit 24 (ucast (s AND 0x0F) :: u32) + push_bit 16 (ucast b0)
                   + push_bit 8 (ucast b1) + ucast b2) n \<Longrightarrow> n < 28"
    unfolding stride4_or using and_mask_bits(1) [of s]
    by (fastforce simp: bit_simps dest: bit_imp_le_length)
  note sa = sint_low_bits [OF a] and sb = sint_low_bits [OF b] and sc = sint_low_bits [OF c]
    and sd = sint_low_bits [OF d]
  show ?thesis
    unfolding read_stride_def
    using sa sb sc sd by (simp add: 1 2 3)
qed







subsection \<open>Output semantics\<close>

lemma write_run_closed:
  "i + k \<le> length out \<Longrightarrow> write_run out i k v = take i out @ replicate k v @ drop (i + k) out"
proof (induction k arbitrary: out i)
  case 0
  then show ?case by simp
next
  case (Suc k)
  have "write_run (out[i := v]) (Suc i) k v =
        take (Suc i) (out[i := v]) @ replicate k v @ drop (Suc i + k) (out[i := v])"
    using Suc.prems by (intro Suc.IH) simp
  moreover have "take (Suc i) (out[i := v]) = take i out @ [v]"
    using Suc.prems by (simp add: take_Suc_conv_app_nth)
  ultimately show ?case by (simp add: replicate_app_Cons_same)
qed

lemma read_run_stride_range:
  "0 \<le> fst (snd (read_run data e i r)) \<and> fst (snd (read_run data e i r)) < 2 ^ 28"
proof -
  obtain c r1 where 1: "read_byte data e i r = (c, r1)" by force
  obtain s r2 where 2: "read_byte data e i r1 = (s, r2)" by force
  obtain st r3 where 3: "read_stride data e i s r2 = (st, r3)" by force
  have "0 \<le> st \<and> st < 2 ^ 28" using read_stride_range [of data e i s r2] 3 by simp
  then show ?thesis by (simp add: read_run_def 1 2 3 Let_def)
qed

lemma write_run_append:
  "k \<le> m \<Longrightarrow>
   write_run (A @ replicate m z @ B) (length A) k v = A @ replicate k v @ replicate (m - k) z @ B"
proof (induction k arbitrary: A m)
  case 0
  then show ?case by simp
next
  case (Suc k)
  then obtain m' where m: "m = Suc m'" by (cases m) auto
  have "(A @ replicate m z @ B)[length A := v] = (A @ [v]) @ replicate m' z @ B"
    by (simp add: m list_update_append)
  moreover have "write_run ((A @ [v]) @ replicate m' z @ B) (length (A @ [v])) k v =
                 (A @ [v]) @ replicate k v @ replicate (m' - k) z @ B"
    using Suc.prems m by (intro Suc.IH) simp
  ultimately show ?case by (simp add: m replicate_app_Cons_same)
qed

lemma take_pad: "j \<le> m \<Longrightarrow> take j (X @ replicate m z) = take j (X @ replicate j z)"
  by (auto simp: min_def)

lemma decode_loop_clipped:
  assumes "0 \<le> pixel" "pixel \<le> pc" "pc \<le> 0x70000000" "length A = nat pixel"
    and "out = A @ replicate (nat (pc - pixel)) 0 @ B"
  shows "decode_loop data e init pc r pixel out =
         Inr (A @ take (nat (pc - pixel))
                   (expand_runs (run_tokens data e init r) @ replicate (nat (pc - pixel)) 0) @ B)"
  using assms
proof (induction data e init pc r pixel out arbitrary: A rule: decode_loop.induct)
  case (1 data e init pc r pixel out)
  obtain c st r' where rr: "read_run data e init r = (c, st, r')" by (metis prod_cases3)
  define m where "m = nat (pc - pixel)"
  show ?case
  proof (cases "rd_n r < length data \<and> pixel < pc \<and> rd_ok r")
    case False
    have L: "decode_loop data e init pc r pixel out = Inr out"
      by (subst decode_loop.simps) (simp only: False if_False)
    show ?thesis
    proof (cases "pixel < pc")
      case True
      then have "run_tokens data e init r = []"
        using False by (subst run_tokens.simps) auto
      then show ?thesis using L 1(6) by (simp add: expand_runs_def)
    next
      case False
      then have "nat (pc - pixel) = 0" by simp
      then show ?thesis using L 1(6) by simp
    qed
  next
    case c: True
    show ?thesis
    proof (cases "rd_ok r'")
      case False
      have L: "decode_loop data e init pc r pixel out = Inr out"
        using c False by (subst decode_loop.simps) (simp add: rr)
      have "run_tokens data e init r = []"
        using c False by (subst run_tokens.simps) (simp add: rr)
      then show ?thesis using L 1(6) by (simp add: expand_runs_def)
    next
      case True
      define pv where "pv = pixel_value c"
      define e0 where "e0 = i32 (pixel + st)"
      define en where "en = (if e0 > pc then pc else e0)"
      have st: "0 \<le> st" "st < 2 ^ 28"
        using read_run_stride_range [of data e init r] rr by simp_all
      have e0: "e0 = pixel + st"
        unfolding e0_def i32_def using st 1(2,3,4) c
        by (intro signed_take_bit_int_eq_self) auto
      have en: "en = min pc (pixel + st)" by (simp add: en_def e0 min_def)
      have nf: "\<not> (pv \<noteq> 0 \<and> pixel < en \<and> pixel < 0)" using 1(2) by simp
      define k where "k = nat (en - pixel)"
      have k: "k \<le> m" "k = min m (nat st)" using st c 1(2) by (auto simp: k_def m_def en)
      define out' where "out' = (if pv \<noteq> 0 then write_run out (nat pixel) (nat (en - pixel)) pv else out)"
      have out': "out' = (A @ replicate k pv) @ replicate (nat (pc - en)) 0 @ B"
      proof (cases "pv = 0")
        case True
        have "replicate m (0::u8) = replicate k 0 @ replicate (m - k) 0"
          using k(1) by (simp add: replicate_add [symmetric])
        moreover have "m - k = nat (pc - en)" using st c 1(2) by (auto simp: k_def m_def en)
        ultimately show ?thesis using True 1(6) by (simp add: out'_def m_def)
      next
        case False
        have "write_run (A @ replicate m 0 @ B) (length A) k pv =
              A @ replicate k pv @ replicate (m - k) 0 @ B"
          by (rule write_run_append [OF k(1)])
        moreover have "m - k = nat (pc - en)" using st c 1(2) by (auto simp: k_def m_def en)
        ultimately show ?thesis using False 1(5,6) by (simp add: out'_def m_def k_def)
      qed
      have ok': "\<not> \<not> rd_ok r'" using True by simp
      have pre: "0 \<le> en" "en \<le> pc" "length (A @ replicate k pv) = nat en"
        using st c 1(2,5) by (auto simp: en k_def)
      have ih: "decode_loop data e init pc r' en out' =
                Inr ((A @ replicate k pv) @ take (nat (pc - en))
                   (expand_runs (run_tokens data e init r') @ replicate (nat (pc - en)) 0) @ B)"
        unfolding out'_def
        by (rule 1(1) [OF c rr [symmetric] refl refl ok' pv_def e0_def en_def nf pre(1,2) 1(4) pre(3)
              out' [unfolded out'_def]])
      have "decode_loop data e init pc r pixel out =
                (if pv \<noteq> 0 \<and> pixel < en \<and> pixel < 0 then Inl OutOfBoundsWrite
                 else decode_loop data e init pc r' en out')"
        using c True
        by (subst decode_loop.simps) (simp add: rr Let_def pv_def e0_def en_def out'_def)
      then have L: "decode_loop data e init pc r pixel out = decode_loop data e init pc r' en out'"
        by (simp only: if_not_P [OF nf])
      have T: "run_tokens data e init r = (c, st) # run_tokens data e init r'"
        using c True by (subst run_tokens.simps) (simp add: rr)
      let ?X = "expand_runs (run_tokens data e init r')"
      have E: "expand_runs (run_tokens data e init r) = replicate (nat st) pv @ ?X"
        by (simp add: T expand_runs_def pv_def)
      have "take m (replicate (nat st) pv @ ?X @ replicate m 0) =
            replicate k pv @ take (nat (pc - en)) (?X @ replicate (nat (pc - en)) 0)"
      proof (cases "nat st \<ge> m")
        case True
        then have "k = m" "nat (pc - en) = 0" using st c 1(2) by (auto simp: k_def m_def en)
        then show ?thesis using True by simp
      next
        case False
        then have kk: "k = nat st" "nat (pc - en) = m - nat st" using st c 1(2) by (auto simp: k_def m_def en)
        have "take (m - nat st) (?X @ replicate m 0) = take (m - nat st) (?X @ replicate (m - nat st) 0)"
          by (rule take_pad) simp
        then show ?thesis using False by (simp add: kk)
      qed
      then show ?thesis by (simp add: L ih E m_def)
    qed
  qed
qed


text \<open>
  As long as \<open>pixel + stride\<close> cannot leave the 32-bit range, that is for
  \<open>pixel_count \<le> 0x70000000\<close>, a call with valid arguments returns 1 and the buffer
  holds what the spec describes: zeros, overwritten by the complete runs of the stream
  laid out from index 0, clipped at \<open>pixel_count\<close>; a token cut off by the end of
  the input contributes nothing.
\<close>

lemma decode_clipped:
  assumes "data \<noteq> []" "0 < pixel_count" "pixel_count \<le> 0x70000000"
    and "nat pixel_count \<le> length out"
  shows "decrypt_and_decode_layer (Some data) layer_index encryption_key pixel_count (Some out) =
         Inr (spec_clipped_pixels pixel_count
                (run_tokens data (encryption_key \<noteq> 0)
                   (if encryption_key \<noteq> 0 then key_init encryption_key else 0)
                   (initial_reader layer_index encryption_key))
              @ drop (nat pixel_count) out)"
proof -
  have z: "write_run out 0 (nat pixel_count) 0 =
           [] @ replicate (nat (pixel_count - 0)) 0 @ drop (nat pixel_count) out"
    using assms(4) by (simp add: write_run_closed)
  have "decode_loop data e init pixel_count r 0 (write_run out 0 (nat pixel_count) 0) =
        Inr ([] @ take (nat (pixel_count - 0))
                   (expand_runs (run_tokens data e init r) @ replicate (nat (pixel_count - 0)) 0)
              @ drop (nat pixel_count) out)" for e init r
    using assms(2,3) by (intro decode_loop_clipped [OF _ _ _ _ z]) simp_all
  then show ?thesis
    using assms(1,2) by (simp add: decrypt_and_decode_layer_def spec_clipped_pixels_def)
qed

text \<open>
  Claim C6, at a buffer of \<open>2^31 - 1\<close> pixels. After eight runs \<open>pixel\<close> is
  2147483640; the ninth run makes \<open>pixel + stride\<close> wrap to a negative \<open>end\<close>, which
  the clip \<open>end > pixel_count\<close> lets through; the last token then writes at a
  negative index instead of being clipped.
\<close>

theorem decode_run_overflow:
  "decrypt_and_decode_layer (Some overflow_stream) 0 0 2147483647
     (Some (replicate 2147483647 0)) = Inl OutOfBoundsWrite"
proof -
  have "decode_loop overflow_stream False 0 2147483647 (initial_reader 0 0) 0 out =
        Inl OutOfBoundsWrite" for out
    by code_simp
  moreover have "overflow_stream \<noteq> []" by (simp add: overflow_stream_def)
  ultimately show ?thesis
    by (simp add: decrypt_and_decode_layer_def)
qed


section \<open>Properties of the scanline builder\<close>

subsection \<open>The mapping loops\<close>

lemma rgb_fold:
  assumes "d + 3 * n \<le> length out"
  shows "snd (fold (rgb_pixel g sw pl ro) [0..<n] (out, d)) = d + 3 * n
       \<and> length (fst (fold (rgb_pixel g sw pl ro) [0..<n] (out, d))) = length out
       \<and> (\<forall>x<n. \<forall>c<3. fst (fold (rgb_pixel g sw pl ro) [0..<n] (out, d)) ! (d + 3 * x + c) =
              subpixel g sw ro (int x * 3 - pl + int c))
       \<and> (\<forall>j. j < d \<or> d + 3 * n \<le> j \<longrightarrow>
              fst (fold (rgb_pixel g sw pl ro) [0..<n] (out, d)) ! j = out ! j)"
  using assms
proof (induction n)
  case 0
  then show ?case by simp
next
  case (Suc n)
  define s where "s = fold (rgb_pixel g sw pl ro) [0..<n] (out, d)"
  obtain o1 d1 where s1: "s = (o1, d1)" by force
  have IH: "snd s = d + 3 * n \<and> length (fst s) = length out
       \<and> (\<forall>x<n. \<forall>c<3. fst s ! (d + 3 * x + c) = subpixel g sw ro (int x * 3 - pl + int c))
       \<and> (\<forall>j. j < d \<or> d + 3 * n \<le> j \<longrightarrow> fst s ! j = out ! j)"
    unfolding s_def using Suc.prems by (intro Suc.IH) simp
  have ih: "d1 = d + 3 * n" "length o1 = length out"
    "\<And>x c. x < n \<Longrightarrow> c < 3 \<Longrightarrow> o1 ! (d + 3 * x + c) = subpixel g sw ro (int x * 3 - pl + int c)"
    "\<And>j. j < d \<Longrightarrow> o1 ! j = out ! j"
    "\<And>j. d + 3 * n \<le> j \<Longrightarrow> o1 ! j = out ! j"
    using IH unfolding s1 by simp_all
  define si where "si = int n * 3 - pl"
  define o2 where "o2 = o1[d1 := subpixel g sw ro si, d1 + 1 := subpixel g sw ro (si + 1),
                          d1 + 2 := subpixel g sw ro (si + 2)]"
  have step: "fold (rgb_pixel g sw pl ro) [0..<Suc n] (out, d) = (o2, d1 + 3)"
    by (simp add: s_def [symmetric] s1 rgb_pixel_def o2_def si_def Let_def)
  have len: "d1 + 2 < length o1" using Suc.prems ih(1,2) by simp
  have a: "o2 ! j = (if j = d1 + 2 then subpixel g sw ro (si + 2)
                     else if j = d1 + 1 then subpixel g sw ro (si + 1)
                     else if j = d1 then subpixel g sw ro si else o1 ! j)" for j
    using len by (auto simp: o2_def nth_list_update)
  have "\<forall>x<Suc n. \<forall>c<3. o2 ! (d + 3 * x + c) = subpixel g sw ro (int x * 3 - pl + int c)"
  proof (intro allI impI)
    fix x c :: nat assume x: "x < Suc n" and c: "c < 3"
    show "o2 ! (d + 3 * x + c) = subpixel g sw ro (int x * 3 - pl + int c)"
    proof (cases "x = n")
      case True
      consider "c = 0" | "c = 1" | "c = 2" using c by linarith
      then show ?thesis
        by cases (simp_all add: a True ih(1) si_def)
    next
      case False
      then have xn: "x < n" using x by simp
      then have "d + 3 * x + c < d1" using c ih(1) by simp
      then show ?thesis using ih(3) [OF xn c] by (simp add: a)
    qed
  qed
  moreover have "\<forall>j. j < d \<or> d + 3 * Suc n \<le> j \<longrightarrow> o2 ! j = out ! j"
    using ih(1) ih(4) ih(5) by (auto simp: a)
  moreover have "length o2 = length out" by (simp add: o2_def ih(2))
  ultimately show ?case unfolding step by (simp add: ih(1))
qed

lemma rgb_row_nth:
  assumes "Suc y * ss \<le> length out" "ss = Suc (3 * ow)"
  shows "length (rgb_row g sw ow ss pl y out) = length out
       \<and> rgb_row g sw ow ss pl y out ! (y * ss) = 0
       \<and> (\<forall>x<ow. \<forall>c<3. rgb_row g sw ow ss pl y out ! (y * ss + 1 + 3 * x + c) =
              subpixel g sw (int y * sw) (int x * 3 - pl + int c))
       \<and> (\<forall>j. j < y * ss \<or> Suc y * ss \<le> j \<longrightarrow> rgb_row g sw ow ss pl y out ! j = out ! j)"
proof -
  define d where "d = y * ss"
  define res where "res = fst (fold (rgb_pixel g sw pl (int y * sw)) [0..<ow] (out[d := 0], d + 1))"
  have e: "Suc y * ss = d + 1 + 3 * ow" by (simp add: d_def assms(2))
  have b: "d + 1 + 3 * ow \<le> length (out[d := 0])" using assms(1) e by simp
  note F = rgb_fold [OF b, of g sw pl "int y * sw", folded res_def]
  have r: "rgb_row g sw ow ss pl y out = res"
    by (simp add: rgb_row_def d_def res_def Let_def)
  have d: "d < length out" using assms(1) e by simp
  have 1: "length res = length out" using F by simp
  have 2: "res ! d = 0" using F d by simp
  have 3: "\<forall>x<ow. \<forall>c<3. res ! (d + 1 + 3 * x + c) = subpixel g sw (int y * sw) (int x * 3 - pl + int c)"
    using F by blast
  have 4: "\<forall>j. j < d \<or> d + 1 + 3 * ow \<le> j \<longrightarrow> res ! j = out ! j"
  proof (intro allI impI)
    fix j assume j: "j < d \<or> d + 1 + 3 * ow \<le> j"
    then have "res ! j = (out[d := 0]) ! j" using F by auto
    then show "res ! j = out ! j" using j by auto
  qed
  show ?thesis
    unfolding r e using 1 2 3 4 by (simp add: d_def [symmetric])
qed


lemma grey_fold:
  assumes "d + 1 + n \<le> length out"
  shows "length (fold (grey_pixel g sw pl ro d) [0..<n] out) = length out
       \<and> (\<forall>x<n. fold (grey_pixel g sw pl ro d) [0..<n] out ! (d + 1 + x) =
              ucast (drop_bit 1 ((ucast (subpixel g sw ro (int x * 2 - pl)) :: u32)
                                   + ucast (subpixel g sw ro (int x * 2 - pl + 1)))))
       \<and> (\<forall>j. j \<le> d \<or> d + 1 + n \<le> j \<longrightarrow>
              fold (grey_pixel g sw pl ro d) [0..<n] out ! j = out ! j)"
  using assms
proof (induction n)
  case 0
  then show ?case by simp
next
  case (Suc n)
  define o1 where "o1 = fold (grey_pixel g sw pl ro d) [0..<n] out"
  have IH: "length o1 = length out
       \<and> (\<forall>x<n. o1 ! (d + 1 + x) =
              ucast (drop_bit 1 ((ucast (subpixel g sw ro (int x * 2 - pl)) :: u32)
                                   + ucast (subpixel g sw ro (int x * 2 - pl + 1)))))
       \<and> (\<forall>j. j \<le> d \<or> d + 1 + n \<le> j \<longrightarrow> o1 ! j = out ! j)"
    unfolding o1_def using Suc.prems by (intro Suc.IH) simp
  define v where "v = (ucast (drop_bit 1 ((ucast (subpixel g sw ro (int n * 2 - pl)) :: u32)
                                   + ucast (subpixel g sw ro (int n * 2 - pl + 1)))) :: u8)"
  define o2 where "o2 = o1[d + 1 + n := v]"
  have step: "fold (grey_pixel g sw pl ro d) [0..<Suc n] out = o2"
    by (simp add: o1_def [symmetric] grey_pixel_def o2_def v_def Let_def)
  have len: "d + 1 + n < length o1" using Suc.prems IH by simp
  have a: "o2 ! j = (if j = d + 1 + n then v else o1 ! j)" for j
    using len by (auto simp: o2_def nth_list_update)
  have 1: "length o2 = length out" using IH by (simp add: o2_def)
  have 2: "\<forall>x<Suc n. o2 ! (d + 1 + x) =
              ucast (drop_bit 1 ((ucast (subpixel g sw ro (int x * 2 - pl)) :: u32)
                                   + ucast (subpixel g sw ro (int x * 2 - pl + 1))))"
    using IH by (auto simp: a v_def less_Suc_eq)
  have 3: "\<forall>j. j \<le> d \<or> d + 1 + Suc n \<le> j \<longrightarrow> o2 ! j = out ! j"
    using IH by (auto simp: a)
  show ?case unfolding step using 1 2 3 by blast
qed

lemma grey_row_nth:
  assumes "Suc y * ss \<le> length out" "ss = Suc ow"
  shows "length (grey_row g sw ow ss pl y out) = length out
       \<and> grey_row g sw ow ss pl y out ! (y * ss) = 0
       \<and> (\<forall>x<ow. grey_row g sw ow ss pl y out ! (y * ss + 1 + x) =
              ucast (drop_bit 1 ((ucast (subpixel g sw (int y * sw) (int x * 2 - pl)) :: u32)
                                   + ucast (subpixel g sw (int y * sw) (int x * 2 - pl + 1)))))
       \<and> (\<forall>j. j < y * ss \<or> Suc y * ss \<le> j \<longrightarrow> grey_row g sw ow ss pl y out ! j = out ! j)"
proof -
  define d where "d = y * ss"
  define res where "res = fold (grey_pixel g sw pl (int y * sw) d) [0..<ow] (out[d := 0])"
  have e: "Suc y * ss = d + 1 + ow" by (simp add: d_def assms(2))
  have b: "d + 1 + ow \<le> length (out[d := 0])" using assms(1) e by simp
  note F = grey_fold [OF b, of g sw pl "int y * sw", folded res_def]
  have r: "grey_row g sw ow ss pl y out = res"
    by (simp add: grey_row_def d_def res_def Let_def)
  have d: "d < length out" using assms(1) e by simp
  have 1: "length res = length out" using F by simp
  have 2: "res ! d = 0" using F d by simp
  have 3: "\<forall>x<ow. res ! (d + 1 + x) =
              ucast (drop_bit 1 ((ucast (subpixel g sw (int y * sw) (int x * 2 - pl)) :: u32)
                                   + ucast (subpixel g sw (int y * sw) (int x * 2 - pl + 1))))"
    using F by blast
  have 4: "\<forall>j. j < d \<or> d + 1 + ow \<le> j \<longrightarrow> res ! j = out ! j"
  proof (intro allI impI)
    fix j assume j: "j < d \<or> d + 1 + ow \<le> j"
    then have "res ! j = (out[d := 0]) ! j" using F by auto
    then show "res ! j = out ! j" using j by auto
  qed
  show ?thesis
    unfolding r e using 1 2 3 4 by (simp add: d_def [symmetric])
qed

text \<open>A loop over the rows, each iteration rewriting its own row only.\<close>

lemma fold_rows:
  assumes f: "\<And>y buf. Suc y * ss \<le> length buf \<Longrightarrow>
                length (f y buf) = length buf
                \<and> (\<forall>i < ss. f y buf ! (y * ss + i) = R y i)
                \<and> (\<forall>j. j < y * ss \<or> Suc y * ss \<le> j \<longrightarrow> f y buf ! j = buf ! j)"
    and h: "h * ss \<le> length out"
  shows "length (fold f [0..<h] out) = length out
       \<and> (\<forall>y<h. \<forall>i < ss. fold f [0..<h] out ! (y * ss + i) = R y i)
       \<and> (\<forall>j. h * ss \<le> j \<longrightarrow> fold f [0..<h] out ! j = out ! j)"
  using h
proof (induction h)
  case 0
  then show ?case by simp
next
  case (Suc h)
  define o1 where "o1 = fold f [0..<h] out"
  have hs: "h * ss \<le> length out" using Suc.prems by simp
  have IH: "length o1 = length out" "\<And>y i. y < h \<Longrightarrow> i < ss \<Longrightarrow> o1 ! (y * ss + i) = R y i"
    "\<And>j. h * ss \<le> j \<Longrightarrow> o1 ! j = out ! j"
    using Suc.IH [OF hs] by (simp_all add: o1_def)
  have pre: "Suc h * ss \<le> length o1" using Suc.prems IH(1) by simp
  note F = f [OF pre]
  have step: "fold f [0..<Suc h] out = f h o1" by (simp add: o1_def)
  have 1: "length (f h o1) = length out" using F IH(1) by simp
  have 2: "\<forall>y<Suc h. \<forall>i < ss. f h o1 ! (y * ss + i) = R y i"
  proof (intro allI impI)
    fix y i assume y: "y < Suc h" and i: "i < ss"
    show "f h o1 ! (y * ss + i) = R y i"
    proof (cases "y = h")
      case True
      then show ?thesis using F i by simp
    next
      case False
      then have yh: "y < h" using y by simp
      then have "Suc y * ss \<le> h * ss" by (intro mult_le_mono1) simp
      then have "y * ss + i < h * ss" using i by simp
      then have "f h o1 ! (y * ss + i) = o1 ! (y * ss + i)" using F by blast
      then show ?thesis using IH(2) [OF yh i] by simp
    qed
  qed
  have 3: "\<forall>j. Suc h * ss \<le> j \<longrightarrow> f h o1 ! j = out ! j"
  proof (intro allI impI)
    fix j assume j: "Suc h * ss \<le> j"
    then have "f h o1 ! j = o1 ! j" using F by blast
    moreover have "h * ss \<le> j" using j by simp
    ultimately show "f h o1 ! j = out ! j" using IH(3) by simp
  qed
  show ?case unfolding step using 1 2 3 by blast
qed


subsection \<open>The filter loops\<close>

lemma up_fold:
  fixes buf :: "u8 list"
  assumes "cur + n < length buf" "prev + n \<le> cur"
  shows "length (fold (\<lambda>i b. b[cur + i := b ! (cur + i) - b ! (prev + i)]) [1..<Suc n] buf) = length buf
       \<and> (\<forall>i. 1 \<le> i \<and> i \<le> n \<longrightarrow>
              fold (\<lambda>i b. b[cur + i := b ! (cur + i) - b ! (prev + i)]) [1..<Suc n] buf ! (cur + i) =
              buf ! (cur + i) - buf ! (prev + i))
       \<and> (\<forall>j. j \<le> cur \<or> cur + n < j \<longrightarrow>
              fold (\<lambda>i b. b[cur + i := b ! (cur + i) - b ! (prev + i)]) [1..<Suc n] buf ! j = buf ! j)"
  using assms
proof (induction n)
  case 0
  then show ?case by simp
next
  case (Suc n)
  define F where "F = (\<lambda>i (b :: u8 list). b[cur + i := b ! (cur + i) - b ! (prev + i)])"
  define o1 where "o1 = fold F [1..<Suc n] buf"
  have IH0: "length o1 = length buf
       \<and> (\<forall>i. 1 \<le> i \<and> i \<le> n \<longrightarrow> o1 ! (cur + i) = buf ! (cur + i) - buf ! (prev + i))
       \<and> (\<forall>j. j \<le> cur \<or> cur + n < j \<longrightarrow> o1 ! j = buf ! j)"
    unfolding o1_def F_def using Suc.prems by (intro Suc.IH) simp_all
  have IH: "length o1 = length buf"
    "\<And>i. 1 \<le> i \<Longrightarrow> i \<le> n \<Longrightarrow> o1 ! (cur + i) = buf ! (cur + i) - buf ! (prev + i)"
    "\<And>j. j \<le> cur \<Longrightarrow> o1 ! j = buf ! j"
    "\<And>j. cur + n < j \<Longrightarrow> o1 ! j = buf ! j"
    using IH0 by blast+
  define o2 where "o2 = o1[cur + Suc n := o1 ! (cur + Suc n) - o1 ! (prev + Suc n)]"
  have step: "fold F [1..<Suc (Suc n)] buf = o2"
    by (simp add: o1_def o2_def F_def)
  have v: "o1 ! (cur + Suc n) - o1 ! (prev + Suc n) = buf ! (cur + Suc n) - buf ! (prev + Suc n)"
    using IH(3) [of "prev + Suc n"] IH(4) [of "cur + Suc n"] Suc.prems by simp
  have len: "cur + Suc n < length o1" using Suc.prems IH(1) by simp
  have a: "o2 ! j = (if j = cur + Suc n then buf ! (cur + Suc n) - buf ! (prev + Suc n) else o1 ! j)" for j
    using len v by (auto simp: o2_def nth_list_update)
  have 1: "length o2 = length buf" using IH(1) by (simp add: o2_def)
  have 2: "\<forall>i. 1 \<le> i \<and> i \<le> Suc n \<longrightarrow> o2 ! (cur + i) = buf ! (cur + i) - buf ! (prev + i)"
    using IH(2) by (auto simp: a le_Suc_eq)
  have 3: "\<forall>j. j \<le> cur \<or> cur + Suc n < j \<longrightarrow> o2 ! j = buf ! j"
    using IH(3,4) by (auto simp: a)
  show ?case unfolding F_def [symmetric] step using 1 2 3 by blast
qed

lemma up_filter_row_nth:
  assumes "1 \<le> y" "Suc y * ss \<le> length out" "ss = Suc bpr"
  shows "length (up_filter_row ss bpr y out) = length out
       \<and> up_filter_row ss bpr y out ! (y * ss) = 2
       \<and> (\<forall>i. 1 \<le> i \<and> i < ss \<longrightarrow>
              up_filter_row ss bpr y out ! (y * ss + i) = out ! (y * ss + i) - out ! ((y - 1) * ss + i))
       \<and> (\<forall>j. j < y * ss \<or> Suc y * ss \<le> j \<longrightarrow> up_filter_row ss bpr y out ! j = out ! j)"
proof -
  define cur where "cur = y * ss"
  define prev where "prev = (y - 1) * ss"
  define res where "res = fold (\<lambda>i b. b[cur + i := b ! (cur + i) - b ! (prev + i)]) [1..<Suc bpr]
                            (out[cur := 2])"
  have e: "Suc y * ss = cur + 1 + bpr" by (simp add: cur_def assms(3))
  have p: "prev + ss = cur" using assms(1) by (cases y) (simp_all add: cur_def prev_def)
  have c: "cur < length out" using assms(2) e by simp
  have b: "cur + bpr < length (out[cur := 2])" "prev + bpr \<le> cur"
    using assms(2) e p assms(3) by simp_all
  note F = up_fold [OF b, folded res_def]
  have r: "up_filter_row ss bpr y out = res"
    by (simp add: up_filter_row_def cur_def prev_def res_def Let_def)
  have 1: "length res = length out" using F by simp
  have 2: "res ! cur = 2" using F c by simp
  have 3: "\<forall>i. 1 \<le> i \<and> i < ss \<longrightarrow> res ! (cur + i) = out ! (cur + i) - out ! (prev + i)"
  proof (intro allI impI)
    fix i assume i: "1 \<le> i \<and> i < ss"
    then have "res ! (cur + i) = (out[cur := 2]) ! (cur + i) - (out[cur := 2]) ! (prev + i)"
      using F assms(3) by simp
    moreover have "prev + i \<noteq> cur" "cur + i \<noteq> cur" using i p by simp_all
    ultimately show "res ! (cur + i) = out ! (cur + i) - out ! (prev + i)" by simp
  qed
  have 4: "\<forall>j. j < cur \<or> cur + 1 + bpr \<le> j \<longrightarrow> res ! j = out ! j"
  proof (intro allI impI)
    fix j assume j: "j < cur \<or> cur + 1 + bpr \<le> j"
    then have "res ! j = (out[cur := 2]) ! j" using F by auto
    then show "res ! j = out ! j" using j by auto
  qed
  show ?thesis
    unfolding r e cur_def [symmetric] prev_def [symmetric] using 1 2 3 4 by blast
qed

lemma up_filter_rows:
  assumes "h * ss \<le> length out" "ss = Suc bpr" "1 \<le> k" "k \<le> h"
  shows "length (fold (up_filter_row ss bpr) (rev [k..<h]) out) = length out
       \<and> (\<forall>j. j < k * ss \<or> h * ss \<le> j \<longrightarrow>
              fold (up_filter_row ss bpr) (rev [k..<h]) out ! j = out ! j)
       \<and> (\<forall>y i. k \<le> y \<and> y < h \<and> i < ss \<longrightarrow>
              fold (up_filter_row ss bpr) (rev [k..<h]) out ! (y * ss + i) =
              (if i = 0 then 2 else out ! (y * ss + i) - out ! ((y - 1) * ss + i)))"
  using assms(3,4)
proof (induction "h - k" arbitrary: k)
  case 0
  then show ?case by auto
next
  case (Suc n)
  then have kh: "k < h" by simp
  define o1 where "o1 = fold (up_filter_row ss bpr) (rev [Suc k..<h]) out"
  have IH0: "length o1 = length out
       \<and> (\<forall>j. j < Suc k * ss \<or> h * ss \<le> j \<longrightarrow> o1 ! j = out ! j)
       \<and> (\<forall>y i. Suc k \<le> y \<and> y < h \<and> i < ss \<longrightarrow>
              o1 ! (y * ss + i) = (if i = 0 then 2 else out ! (y * ss + i) - out ! ((y - 1) * ss + i)))"
    unfolding o1_def using Suc.hyps(2) kh by (intro Suc.hyps(1)) simp_all
  have IH: "length o1 = length out"
    "\<And>j. j < Suc k * ss \<Longrightarrow> o1 ! j = out ! j"
    "\<And>j. h * ss \<le> j \<Longrightarrow> o1 ! j = out ! j"
    "\<And>y i. Suc k \<le> y \<Longrightarrow> y < h \<Longrightarrow> i < ss \<Longrightarrow>
        o1 ! (y * ss + i) = (if i = 0 then 2 else out ! (y * ss + i) - out ! ((y - 1) * ss + i))"
    using IH0 by blast+
  have step: "fold (up_filter_row ss bpr) (rev [k..<h]) out = up_filter_row ss bpr k o1"
    using kh by (simp add: upt_conv_Cons o1_def)
  have m: "Suc k * ss \<le> h * ss" using kh by (intro mult_le_mono1) simp
  have pre: "Suc k * ss \<le> length o1" using m assms(1) IH(1) by simp
  note F = up_filter_row_nth [OF Suc.prems(1) pre assms(2)]
  have p: "(k - 1) * ss + ss = k * ss" using Suc.prems(1) by (cases k) simp_all
  let ?r = "up_filter_row ss bpr k o1"
  have 1: "length ?r = length out" using F IH(1) by simp
  have 2: "\<forall>j. j < k * ss \<or> h * ss \<le> j \<longrightarrow> ?r ! j = out ! j"
  proof (intro allI impI)
    fix j assume j: "j < k * ss \<or> h * ss \<le> j"
    then have "j < k * ss \<or> Suc k * ss \<le> j" using m by linarith
    then have "?r ! j = o1 ! j" using F by blast
    moreover have "o1 ! j = out ! j"
      using j IH(2) [of j] IH(3) [of j] by auto
    ultimately show "?r ! j = out ! j" by simp
  qed
  have 3: "\<forall>y i. k \<le> y \<and> y < h \<and> i < ss \<longrightarrow>
              ?r ! (y * ss + i) = (if i = 0 then 2 else out ! (y * ss + i) - out ! ((y - 1) * ss + i))"
  proof (intro allI impI)
    fix y i assume a: "k \<le> y \<and> y < h \<and> i < ss"
    show "?r ! (y * ss + i) = (if i = 0 then 2 else out ! (y * ss + i) - out ! ((y - 1) * ss + i))"
    proof (cases "y = k")
      case True
      show ?thesis
      proof (cases "i = 0")
        case True
        then show ?thesis using F \<open>y = k\<close> by simp
      next
        case False
        then have "?r ! (k * ss + i) = o1 ! (k * ss + i) - o1 ! ((k - 1) * ss + i)"
          using F a by simp
        moreover have "k * ss + i < Suc k * ss" "(k - 1) * ss + i < Suc k * ss"
          using a p by simp_all
        ultimately show ?thesis using IH(2) False True by simp
      qed
    next
      case False
      then have y: "Suc k \<le> y" using a by simp
      then have "Suc k * ss \<le> y * ss" by (intro mult_le_mono1)
      then have "Suc k * ss \<le> y * ss + i" by simp
      then have "?r ! (y * ss + i) = o1 ! (y * ss + i)" using F by blast
      then show ?thesis using IH(4) [OF y] a by simp
    qed
  qed
  show ?case unfolding step using 1 2 3 by blast
qed

subsection \<open>From the index arithmetic to the spec's words\<close>

lemma i32_id: "0 \<le> x \<Longrightarrow> x < 2 ^ 31 \<Longrightarrow> i32 x = x"
  unfolding i32_def by (intro signed_take_bit_int_eq_self) simp_all

lemma i32_id': "- (2 ^ 31) \<le> x \<Longrightarrow> x < 2 ^ 31 \<Longrightarrow> i32 x = x"
  unfolding i32_def by (intro signed_take_bit_int_eq_self) simp_all

lemma pad_left_spec:
  assumes "0 \<le> req" "req < 2 ^ 31" "0 < sw" "sw < 2 ^ 31"
  shows "pad_left_of (i32 req) sw = spec_pad_left req sw"
proof -
  have "i32 req = req" using assms by (intro i32_id) simp_all
  moreover have "i32 (req - sw) = req - sw" using assms by (intro i32_id') simp_all
  ultimately show ?thesis
    by (auto simp: pad_left_of_def spec_pad_left_def Let_def max_def)
qed

lemma subpixel_spec:
  "0 < sw \<Longrightarrow> subpixel g sw (int y * sw) s = spec_grey_at g sw y s"
  by (simp add: subpixel_def spec_grey_at_def nat_add_distrib nat_mult_distrib)

lemma average_word:
  "(ucast (drop_bit 1 ((ucast (a :: u8) :: u32) + ucast (b :: u8))) :: u8) =
   of_nat ((unat a + unat b) div 2)"
proof -
  have a: "unat a < 256" "unat b < 256" using unsigned_less [of a] unsigned_less [of b] by simp_all
  have "unat (ucast a :: u32) = unat a" "unat (ucast b :: u32) = unat b"
    using a by (simp_all add: unsigned_ucast_eq take_bit_nat_eq_self)
  then have "unat ((ucast a :: u32) + ucast b) = unat a + unat b"
    using a by (simp add: unat_word_ariths)
  moreover have "unat (drop_bit 1 ((ucast a :: u32) + ucast b)) =
                 unat ((ucast a :: u32) + ucast b) div 2"
    by (simp add: drop_bit_eq_div unat_div)
  ultimately have "unat (drop_bit 1 ((ucast a :: u32) + ucast b)) = (unat a + unat b) div 2"
    by simp
  moreover have "(ucast (drop_bit 1 ((ucast a :: u32) + ucast b)) :: u8) =
                 of_nat (unat (drop_bit 1 ((ucast a :: u32) + ucast b)))"
    by (rule of_nat_unat [symmetric])
  ultimately show ?thesis by (simp only:)
qed

lemma valid_sizes:
  assumes "valid_scanline_args grey sw h ow ch out out_len"
  shows "i32 (ow * ch) = ow * ch" "i32 (1 + ow * ch) = 1 + ow * ch"
    "i32 ((1 + ow * ch) * h) = (1 + ow * ch) * h"
    "nat h * nat (1 + ow * ch) \<le> length out"
    "nat (1 + ow * ch) = Suc (nat (ow * ch))"
    "sw < 2 ^ 31"
proof -
  have p: "0 < sw" "0 < h" "0 < ow" "0 < ch" "(1 + ow * ch) * h \<le> out_len" "out_len < 2 ^ 31"
    "out_len \<le> int (length out)" "sw * h < 2 ^ 31"
    using assms by (auto simp: valid_scanline_args_def)
  have owch: "0 < ow * ch" using p by simp
  have "1 + ow * ch \<le> (1 + ow * ch) * h"
    using p(2) owch by (simp add: mult_le_cancel_left1)
  then have b: "1 + ow * ch < 2 ^ 31" using p(5,6) by linarith
  show 1: "i32 (ow * ch) = ow * ch" using owch b by (intro i32_id) simp_all
  show 2: "i32 (1 + ow * ch) = 1 + ow * ch" using owch b by (intro i32_id) simp_all
  show "i32 ((1 + ow * ch) * h) = (1 + ow * ch) * h"
    using owch p by (intro i32_id) simp_all
  have "int (nat h * nat (1 + ow * ch)) = (1 + ow * ch) * h"
    using p owch by (simp add: nat_mult_distrib)
  then show "nat h * nat (1 + ow * ch) \<le> length out" using p(5,7) by linarith
  show "nat (1 + ow * ch) = Suc (nat (ow * ch))" using owch by simp
  have "sw \<le> sw * h" using p(1,2) by (simp add: mult_le_cancel_left1)
  then show "sw < 2 ^ 31" using p(8) by linarith
qed

lemma build_png_scanlines_valid:
  assumes "valid_scanline_args grey sw h ow ch out out_len"
  shows "build_png_scanlines (Some grey) sw h ow ch (Some out) out_len =
         Some (up_filter (nat h) (nat (1 + ow * ch)) (nat (ow * ch))
                 (mapped_scanlines grey sw h ow ch out))"
proof -
  note v = valid_sizes [OF assms]
  have p: "0 < sw" "0 < h" "0 < ow" "ch = 1 \<or> ch = 3" "(1 + ow * ch) * h \<le> out_len"
    using assms by (auto simp: valid_scanline_args_def)
  show ?thesis
    using p by (simp add: build_png_scanlines_def v(1,2,3) mapped_scanlines_def Let_def)
qed

lemma mapped_rgb:
  assumes "valid_scanline_args grey sw h ow 3 out out_len" "y < nat h"
  shows "mapped_scanlines grey sw h ow 3 out ! (y * nat (1 + ow * 3)) = 0"
    and "x < nat ow \<Longrightarrow> c < 3 \<Longrightarrow>
         mapped_scanlines grey sw h ow 3 out ! (y * nat (1 + ow * 3) + 1 + 3 * x + c) =
         spec_grey_at grey sw y (3 * int x - spec_pad_left (ow * 3) sw + int c)"
    and "length (mapped_scanlines grey sw h ow 3 out) = length out"
proof -
  note v = valid_sizes [OF assms(1)]
  have p: "0 < sw" "0 < h" "0 < ow" "ow * 3 < 2 ^ 31"
    using assms by (auto simp: valid_scanline_args_def)
  define ss where "ss = nat (1 + ow * 3)"
  define pl where "pl = spec_pad_left (ow * 3) sw"
  define R where "R = (\<lambda>y i. if i = 0 then (0 :: u8)
      else subpixel grey sw (int y * sw) (int ((i - 1) div 3) * 3 - pl + int ((i - 1) mod 3)))"
  have ss: "ss = Suc (3 * nat ow)" using p by (simp add: ss_def nat_mult_distrib nat_add_distrib)
  have pad: "pad_left_of (i32 (int (nat ow) * 3)) sw = pl"
    unfolding pl_def using p v(6) by (simp add: pad_left_spec)
  have m: "mapped_scanlines grey sw h ow 3 out =
           fold (rgb_row grey sw (nat ow) ss pl) [0..<nat h] out"
    using pad p(3) by (simp add: mapped_scanlines_def map_pixels_def ss_def Let_def)
  have row: "length (rgb_row grey sw (nat ow) ss pl y buf) = length buf
                \<and> (\<forall>i < ss. rgb_row grey sw (nat ow) ss pl y buf ! (y * ss + i) = R y i)
                \<and> (\<forall>j. j < y * ss \<or> Suc y * ss \<le> j \<longrightarrow> rgb_row grey sw (nat ow) ss pl y buf ! j = buf ! j)"
    if b: "Suc y * ss \<le> length buf" for y buf
  proof -
    note N = rgb_row_nth [OF b ss, of grey sw pl]
    have "rgb_row grey sw (nat ow) ss pl y buf ! (y * ss + i) = R y i" if i: "i < ss" for i
    proof (cases "i = 0")
      case True
      then show ?thesis using N by (simp add: R_def)
    next
      case False
      define x where "x = (i - 1) div 3"
      define c where "c = (i - 1) mod 3"
      have xc: "x < nat ow" "c < 3" "i = 1 + 3 * x + c"
        using False i ss by (auto simp: x_def c_def)
      have Ri: "R y i = subpixel grey sw (int y * sw) (int x * 3 - pl + int c)"
        using False by (simp add: R_def x_def c_def)
      have idx: "y * ss + i = y * ss + 1 + 3 * x + c" using xc(3) by simp
      have "rgb_row grey sw (nat ow) ss pl y buf ! (y * ss + 1 + 3 * x + c) =
            subpixel grey sw (int y * sw) (int x * 3 - pl + int c)"
        using N xc(1,2) by blast
      then show ?thesis unfolding Ri idx .
    qed
    then show ?thesis using N by blast
  qed
  have hs: "nat h * ss \<le> length out" using v(4) by (simp add: ss_def)
  note F = fold_rows [of ss "rgb_row grey sw (nat ow) ss pl" R "nat h" out, OF row hs, folded m]
  show "length (mapped_scanlines grey sw h ow 3 out) = length out" using F by simp
  have z: "0 < ss" by (simp add: ss)
  show "mapped_scanlines grey sw h ow 3 out ! (y * nat (1 + ow * 3)) = 0"
    using F assms(2) z unfolding ss_def [symmetric]
    by (metis R_def add.right_neutral)
  show "mapped_scanlines grey sw h ow 3 out ! (y * nat (1 + ow * 3) + 1 + 3 * x + c) =
         spec_grey_at grey sw y (3 * int x - spec_pad_left (ow * 3) sw + int c)"
    if x: "x < nat ow" and c: "c < 3"
  proof -
    have i: "1 + 3 * x + c < ss" using x c ss by simp
    have dm: "(3 * x + c) div 3 = x" "(3 * x + c) mod 3 = c" using c by simp_all
    have "mapped_scanlines grey sw h ow 3 out ! (y * ss + (1 + 3 * x + c)) = R y (1 + 3 * x + c)"
      using F assms(2) i by blast
    also have "\<dots> = subpixel grey sw (int y * sw) (int x * 3 - pl + int c)"
      using dm by (simp add: R_def)
    also have "\<dots> = spec_grey_at grey sw y (int x * 3 - pl + int c)"
      by (rule subpixel_spec [OF p(1)])
    finally show ?thesis
      by (simp add: ss_def pl_def add.assoc mult.commute [of 3 "int x"])
  qed
qed


lemma mapped_grey:
  assumes "valid_scanline_args grey sw h ow 1 out out_len" "y < nat h"
  shows "mapped_scanlines grey sw h ow 1 out ! (y * nat (1 + ow * 1)) = 0"
    and "x < nat ow \<Longrightarrow>
         mapped_scanlines grey sw h ow 1 out ! (y * nat (1 + ow * 1) + 1 + x) =
         of_nat ((unat (spec_grey_at grey sw y (2 * int x - spec_pad_left (ow * 2) sw))
                  + unat (spec_grey_at grey sw y (2 * int x - spec_pad_left (ow * 2) sw + 1))) div 2)"
    and "length (mapped_scanlines grey sw h ow 1 out) = length out"
proof -
  note v = valid_sizes [OF assms(1)]
  have p: "0 < sw" "0 < h" "0 < ow" "ow * 2 < 2 ^ 31"
    using assms by (auto simp: valid_scanline_args_def)
  define ss where "ss = nat (1 + ow * 1)"
  define pl where "pl = spec_pad_left (ow * 2) sw"
  define R where "R = (\<lambda>y i. if i = 0 then (0 :: u8)
      else ucast (drop_bit 1 ((ucast (subpixel grey sw (int y * sw) (int (i - 1) * 2 - pl)) :: u32)
                              + ucast (subpixel grey sw (int y * sw) (int (i - 1) * 2 - pl + 1)))))"
  have ss: "ss = Suc (nat ow)" using p by (simp add: ss_def)
  have pad: "pad_left_of (i32 (int (nat ow) * 2)) sw = pl"
    unfolding pl_def using p v(6) by (simp add: pad_left_spec)
  have m: "mapped_scanlines grey sw h ow 1 out =
           fold (grey_row grey sw (nat ow) ss pl) [0..<nat h] out"
    using pad p(3) by (simp add: mapped_scanlines_def map_pixels_def ss_def Let_def)
  have row: "length (grey_row grey sw (nat ow) ss pl y buf) = length buf
                \<and> (\<forall>i < ss. grey_row grey sw (nat ow) ss pl y buf ! (y * ss + i) = R y i)
                \<and> (\<forall>j. j < y * ss \<or> Suc y * ss \<le> j \<longrightarrow> grey_row grey sw (nat ow) ss pl y buf ! j = buf ! j)"
    if b: "Suc y * ss \<le> length buf" for y buf
  proof -
    note N = grey_row_nth [OF b ss, of grey sw pl]
    have "grey_row grey sw (nat ow) ss pl y buf ! (y * ss + i) = R y i" if i: "i < ss" for i
    proof (cases "i = 0")
      case True
      then show ?thesis using N by (simp add: R_def)
    next
      case False
      define x where "x = i - 1"
      have xc: "x < nat ow" "i = 1 + x" using False i ss by (auto simp: x_def)
      have Ri: "R y i = ucast (drop_bit 1 ((ucast (subpixel grey sw (int y * sw) (int x * 2 - pl)) :: u32)
                              + ucast (subpixel grey sw (int y * sw) (int x * 2 - pl + 1))))"
        using False by (simp add: R_def x_def)
      have idx: "y * ss + i = y * ss + 1 + x" using xc(2) by simp
      have "grey_row grey sw (nat ow) ss pl y buf ! (y * ss + 1 + x) =
            ucast (drop_bit 1 ((ucast (subpixel grey sw (int y * sw) (int x * 2 - pl)) :: u32)
                              + ucast (subpixel grey sw (int y * sw) (int x * 2 - pl + 1))))"
        using N xc(1) by blast
      then show ?thesis unfolding Ri idx .
    qed
    then show ?thesis using N by blast
  qed
  have hs: "nat h * ss \<le> length out" using v(4) by (simp add: ss_def)
  note F = fold_rows [of ss "grey_row grey sw (nat ow) ss pl" R "nat h" out, OF row hs, folded m]
  show "length (mapped_scanlines grey sw h ow 1 out) = length out" using F by simp
  have z: "0 < ss" by (simp add: ss)
  show "mapped_scanlines grey sw h ow 1 out ! (y * nat (1 + ow * 1)) = 0"
    using F assms(2) z unfolding ss_def [symmetric]
    by (metis R_def add.right_neutral)
  show "mapped_scanlines grey sw h ow 1 out ! (y * nat (1 + ow * 1) + 1 + x) =
         of_nat ((unat (spec_grey_at grey sw y (2 * int x - spec_pad_left (ow * 2) sw))
                  + unat (spec_grey_at grey sw y (2 * int x - spec_pad_left (ow * 2) sw + 1))) div 2)"
    if x: "x < nat ow"
  proof -
    have i: "1 + x < ss" using x ss by simp
    have "mapped_scanlines grey sw h ow 1 out ! (y * ss + (1 + x)) = R y (1 + x)"
      using F assms(2) i by blast
    also have "\<dots> = ucast (drop_bit 1 ((ucast (subpixel grey sw (int y * sw) (int x * 2 - pl)) :: u32)
                              + ucast (subpixel grey sw (int y * sw) (int x * 2 - pl + 1))))"
      by (simp add: R_def)
    also have "\<dots> = of_nat ((unat (spec_grey_at grey sw y (int x * 2 - pl))
                  + unat (spec_grey_at grey sw y (int x * 2 - pl + 1))) div 2)"
      unfolding subpixel_spec [OF p(1)] by (rule average_word)
    finally show ?thesis
      by (simp add: ss_def pl_def add.assoc mult.commute [of 2 "int x"])
  qed
qed

lemma up_filter_nth:
  fixes raw :: "u8 list"
  assumes "h * ss \<le> length raw" "ss = Suc bpr" "1 \<le> h"
  shows "length (up_filter h ss bpr raw) = length raw"
    and "y < h \<Longrightarrow> up_filter h ss bpr raw ! (y * ss) = 2"
    and "1 \<le> i \<Longrightarrow> i \<le> bpr \<Longrightarrow> up_filter h ss bpr raw ! i = raw ! i"
    and "1 \<le> y \<Longrightarrow> y < h \<Longrightarrow> 1 \<le> i \<Longrightarrow> i \<le> bpr \<Longrightarrow>
         up_filter h ss bpr raw ! (y * ss + i) = raw ! (y * ss + i) - raw ! ((y - 1) * ss + i)"
    and "h * ss \<le> j \<Longrightarrow> up_filter h ss bpr raw ! j = raw ! j"
proof -
  define res where "res = fold (up_filter_row ss bpr) (rev [1..<h]) raw"
  note F = up_filter_rows [OF assms(1,2) order_refl assms(3), folded res_def]
  have u: "up_filter h ss bpr raw = res[0 := 2]" by (simp add: up_filter_def res_def)
  have len: "length res = length raw" using F by simp
  have pos: "0 < length res" using assms len by (cases h) auto
  show "length (up_filter h ss bpr raw) = length raw" by (simp add: u len)
  have a: "res[0 := 2] ! j = (if j = 0 then 2 else res ! j)" for j
    using pos by (cases j) auto
  have lo: "\<And>j. j < ss \<Longrightarrow> res ! j = raw ! j" using F by simp
  have hi: "\<And>j. h * ss \<le> j \<Longrightarrow> res ! j = raw ! j" using F by simp
  have mid: "\<And>y i. 1 \<le> y \<Longrightarrow> y < h \<Longrightarrow> i < ss \<Longrightarrow>
      res ! (y * ss + i) = (if i = 0 then 2 else raw ! (y * ss + i) - raw ! ((y - 1) * ss + i))"
    using F by simp
  show "up_filter h ss bpr raw ! (y * ss) = 2" if "y < h"
  proof (cases "y = 0")
    case True
    then show ?thesis by (simp add: u a)
  next
    case False
    have "0 < ss" by (simp add: assms(2))
    then have "res ! (y * ss + 0) = 2" using mid [of y 0] that False by simp
    then show ?thesis by (simp add: u a)
  qed
  show "up_filter h ss bpr raw ! i = raw ! i" if "1 \<le> i" "i \<le> bpr"
  proof -
    have "i < ss" using that by (simp add: assms(2))
    then show ?thesis using that lo [of i] by (simp add: u a)
  qed
  show "up_filter h ss bpr raw ! (y * ss + i) = raw ! (y * ss + i) - raw ! ((y - 1) * ss + i)"
    if "1 \<le> y" "y < h" "1 \<le> i" "i \<le> bpr"
  proof -
    have "i < ss" using that by (simp add: assms(2))
    then show ?thesis using that mid [of y i] by (simp add: u a)
  qed
  show "up_filter h ss bpr raw ! j = raw ! j" if "h * ss \<le> j"
  proof -
    have "j \<noteq> 0" using that assms(2,3) by (cases h) auto
    then show ?thesis using hi [OF that] by (simp add: u a)
  qed
qed




text \<open>
  Claim C4. After the mapping step every row of the output carries the filter byte 2;
  in every row \<open>y \<ge> 1\<close> each data byte is the mapped byte minus the mapped byte above
  it, modulo 256, and the data bytes of row 0 are the mapped bytes unchanged.
\<close>

theorem up_filter_bottom_to_top:
  assumes "valid_scanline_args grey src_width height out_width channels out out_len"
    and "y < nat height" and "1 \<le> i" and "i \<le> nat (out_width * channels)"
  shows "\<exists>final.
           build_png_scanlines (Some grey) src_width height out_width channels (Some out) out_len =
             Some final
         \<and> length final = length out
         \<and> final ! (y * nat (1 + out_width * channels)) = 2
         \<and> (y = 0 \<longrightarrow>
               final ! i = mapped_scanlines grey src_width height out_width channels out ! i)
         \<and> (1 \<le> y \<longrightarrow>
               uint (final ! (y * nat (1 + out_width * channels) + i)) =
               (uint (mapped_scanlines grey src_width height out_width channels out
                        ! (y * nat (1 + out_width * channels) + i))
                - uint (mapped_scanlines grey src_width height out_width channels out
                          ! ((y - 1) * nat (1 + out_width * channels) + i))) mod 256)"
proof -
  define raw where "raw = mapped_scanlines grey src_width height out_width channels out"
  define ss where "ss = nat (1 + out_width * channels)"
  define bpr where "bpr = nat (out_width * channels)"
  define final where "final = up_filter (nat height) ss bpr raw"
  note v = valid_sizes [OF assms(1)]
  have ch: "channels = 1 \<or> channels = 3" and h: "0 < height"
    using assms(1) by (simp_all add: valid_scanline_args_def)
  have len: "length raw = length out"
    using ch mapped_rgb(3) [of grey src_width height out_width out out_len 0]
      mapped_grey(3) [of grey src_width height out_width out out_len 0] assms(1) h
    by (auto simp: raw_def)
  have b: "nat height * ss \<le> length raw" "ss = Suc bpr" "1 \<le> nat height"
    using v(4,5) h len by (simp_all add: ss_def bpr_def)
  note U = up_filter_nth [OF b, folded final_def]
  have 1: "build_png_scanlines (Some grey) src_width height out_width channels (Some out) out_len =
             Some final"
    unfolding final_def ss_def bpr_def raw_def by (rule build_png_scanlines_valid [OF assms(1)])
  have 2: "length final = length out" using U(1) len by simp
  have 3: "final ! (y * ss) = 2" using U(2) assms(2) by simp
  have 4: "y = 0 \<longrightarrow> final ! i = raw ! i" using U(3) assms(3,4) by (simp add: bpr_def)
  have 5: "1 \<le> y \<longrightarrow> uint (final ! (y * ss + i)) =
               (uint (raw ! (y * ss + i)) - uint (raw ! ((y - 1) * ss + i))) mod 256"
  proof
    assume y: "1 \<le> y"
    have "final ! (y * ss + i) = raw ! (y * ss + i) - raw ! ((y - 1) * ss + i)"
      using U(4) [OF y assms(2,3)] assms(4) by (simp add: bpr_def)
    then show "uint (final ! (y * ss + i)) =
               (uint (raw ! (y * ss + i)) - uint (raw ! ((y - 1) * ss + i))) mod 256"
      by (simp add: uint_word_ariths)
  qed
  show ?thesis
    unfolding raw_def [symmetric] ss_def [symmetric]
    using 1 2 3 4 5 by blast
qed

theorem up_filter_bottom_to_top_witness:
  "valid_scanline_args [10, 11, 12, 13, 1, 2, 3, 4] 4 2 3 3 (replicate 20 0xEE) 20
   \<and> (1 :: nat) < nat 2 \<and> (1 :: nat) \<le> 4 \<and> (4 :: nat) \<le> nat (3 * 3)
   \<and> build_png_scanlines (Some [10, 11, 12, 13, 1, 2, 3, 4]) 4 2 3 3 (Some (replicate 20 0xEE)) 20 =
       Some [2, 0, 0, 10, 11, 12, 13, 0, 0, 0, 2, 0, 0, 247, 247, 247, 247, 0, 0, 0]
   \<and> (\<exists>final.
         build_png_scanlines (Some [10, 11, 12, 13, 1, 2, 3, 4]) 4 2 3 3 (Some (replicate 20 0xEE)) 20 =
           Some final
         \<and> final ! (1 * nat (1 + 3 * 3)) = 2
         \<and> uint (final ! (1 * nat (1 + 3 * 3) + 4)) = (2 - 11) mod 256)"
proof -
  let ?G = "[10, 11, 12, 13, 1, 2, 3, 4] :: u8 list"
  have v3: "valid_scanline_args ?G 4 2 3 3 (replicate 20 0xEE) 20"
    by (simp add: valid_scanline_args_def)
  have y: "(1 :: nat) < nat 2" and i: "(1 :: nat) \<le> 4" "(4 :: nat) \<le> nat (3 * 3)" by simp_all
  have m3: "mapped_scanlines ?G 4 2 3 3 (replicate 20 0xEE) =
            [0, 0, 0, 10, 11, 12, 13, 0, 0, 0, 0, 0, 0, 1, 2, 3, 4, 0, 0, 0]"
    by code_simp
  have e: "build_png_scanlines (Some ?G) 4 2 3 3 (Some (replicate 20 0xEE)) 20 =
       Some [2, 0, 0, 10, 11, 12, 13, 0, 0, 0, 2, 0, 0, 247, 247, 247, 247, 0, 0, 0]"
    by code_simp
  obtain final where f:
    "build_png_scanlines (Some ?G) 4 2 3 3 (Some (replicate 20 0xEE)) 20 = Some final"
    "final ! (1 * nat (1 + 3 * 3)) = 2"
    "1 \<le> (1 :: nat) \<longrightarrow> uint (final ! (1 * nat (1 + 3 * 3) + 4)) =
       (uint (mapped_scanlines ?G 4 2 3 3 (replicate 20 0xEE) ! (1 * nat (1 + 3 * 3) + 4))
        - uint (mapped_scanlines ?G 4 2 3 3 (replicate 20 0xEE) ! ((1 - 1) * nat (1 + 3 * 3) + 4))) mod 256"
    using up_filter_bottom_to_top [OF v3 y i] by blast
  have "uint (final ! (1 * nat (1 + 3 * 3) + 4)) = (2 - 11) mod 256"
    using f(3) by (simp add: m3)
  then show ?thesis using v3 y i e f(1,2) by blast
qed


section \<open>Properties of the area statistics\<close>

subsection \<open>Stack entries\<close>




subsection \<open>The bitset\<close>

lemma bit_index: "drop_bit 5 (idx :: nat) = idx div 32" "(idx :: nat) AND 31 = idx mod 32"
proof -
  show "drop_bit 5 idx = idx div 32" by (simp add: drop_bit_eq_div)
  have m: "(31 :: nat) = mask 5" by (simp add: mask_eq_exp_minus_1)
  have "idx AND mask 5 = take_bit 5 idx" by (rule take_bit_eq_mask [symmetric])
  then show "idx AND 31 = idx mod 32"
    unfolding m by (simp add: take_bit_eq_mod)
qed

lemma is_visited_iff: "is_visited v idx \<longleftrightarrow> bit (v ! (idx div 32)) (idx mod 32)"
proof -
  have "(w :: u32) AND push_bit n 1 \<noteq> 0 \<longleftrightarrow> bit w n" if "n < 32" for w n
  proof
    assume "w AND push_bit n 1 \<noteq> 0"
    then have "\<exists>k. bit (w AND push_bit n 1) k"
      using bit_eq_iff [of "w AND push_bit n 1" 0] by auto
    then obtain k where "bit (w AND push_bit n 1) k" ..
    then show "bit w n" by (auto simp: bit_simps)
  next
    assume "bit w n"
    then have "bit (w AND push_bit n 1) n" using that by (simp add: bit_simps)
    then show "w AND push_bit n 1 \<noteq> 0" by auto
  qed
  then show ?thesis by (simp add: is_visited_def bit_index)
qed

lemma length_mark_visited [simp]: "length (mark_visited v idx) = length v"
  by (simp add: mark_visited_def)

lemma is_visited_mark:
  assumes "idx div 32 < length v"
  shows "is_visited (mark_visited v idx) j \<longleftrightarrow> j = idx \<or> is_visited v j"
proof (cases "j div 32 = idx div 32")
  case True
  have "j mod 32 = idx mod 32 \<longleftrightarrow> j = idx"
    using True by (metis div_mult_mod_eq)
  then show ?thesis
    using assms True
    by (auto simp: is_visited_iff mark_visited_def bit_index bit_simps)
next
  case False
  then have "j \<noteq> idx" by auto
  then show ?thesis
    using False by (simp add: is_visited_iff mark_visited_def bit_index)
qed

lemma not_visited_zero: "j div 32 < n \<Longrightarrow> \<not> is_visited (replicate n 0) j"
  by (simp add: is_visited_iff)

subsection \<open>The flood fill returns\<close>

lemma fill_extends_refl [simp]: "fill_extends st st"
  by (simp add: fill_extends_def)

lemma fill_extends_trans: "fill_extends a b \<Longrightarrow> fill_extends b c \<Longrightarrow> fill_extends a c"
  by (simp add: fill_extends_def)

lemma finite_sets [simp]: "finite (visited_set pc st)" "finite (unvisited_set pc st)"
  by (simp_all add: visited_set_def unvisited_set_def)

lemma push_pixel_fields [simp]:
  "as_visited (push_pixel x y idx st) = mark_visited (as_visited st) idx"
  "as_stack (push_pixel x y idx st) = pack_coord x y # as_stack st"
  "as_total_area (push_pixel x y idx st) = as_total_area st"
  "as_largest_area (push_pixel x y idx st) = as_largest_area st"
  "as_smallest_area (push_pixel x y idx st) = as_smallest_area st"
  "as_area_count (push_pixel x y idx st) = as_area_count st"
  by (simp_all add: push_pixel_def)

lemma push_pixel_sets:
  assumes "idx < pc" "pc \<le> 32 * length (as_visited st)"
  shows "visited_set pc (push_pixel x y idx st) = insert idx (visited_set pc st)"
    and "unvisited_set pc (push_pixel x y idx st) = unvisited_set pc st - {idx}"
proof -
  have "idx div 32 < length (as_visited st)" using assms by auto
  note M = is_visited_mark [OF this]
  show "visited_set pc (push_pixel x y idx st) = insert idx (visited_set pc st)"
    using assms(1) by (auto simp: visited_set_def M)
  show "unvisited_set pc (push_pixel x y idx st) = unvisited_set pc st - {idx}"
    by (auto simp: unvisited_set_def M)
qed

lemma push_pixel_step:
  assumes "idx < pc" "pc \<le> 32 * length (as_visited st)" "\<not> is_visited (as_visited st) idx"
  shows "fill_extends st (push_pixel x y idx st)"
    and "Suc (fill_measure pc (push_pixel x y idx st)) = fill_measure pc st"
    and "card (visited_set pc (push_pixel x y idx st)) = Suc (card (visited_set pc st))"
proof -
  have d: "idx div 32 < length (as_visited st)" using assms by auto
  show "fill_extends st (push_pixel x y idx st)"
    by (simp add: fill_extends_def is_visited_mark [OF d])
  have m: "idx \<in> unvisited_set pc st" using assms by (simp add: unvisited_set_def)
  then have "card (unvisited_set pc st - {idx}) = card (unvisited_set pc st) - 1"
    and "0 < card (unvisited_set pc st)"
    by (auto simp: card_gt_0_iff)
  then show "Suc (fill_measure pc (push_pixel x y idx st)) = fill_measure pc st"
    by (simp add: fill_measure_def push_pixel_sets(2) [OF assms(1,2)])
  have "idx \<notin> visited_set pc st" using assms by (simp add: visited_set_def)
  then show "card (visited_set pc (push_pixel x y idx st)) = Suc (card (visited_set pc st))"
    by (simp add: push_pixel_sets(1) [OF assms(1,2)])
qed

lemma index_in_range:
  fixes x y w h :: int
  assumes "0 \<le> x" "x < w" "0 \<le> y" "y < h"
  shows "nat (y * w + x) < nat (w * h)"
proof -
  have "(y + 1) * w \<le> h * w" using assms by (intro mult_right_mono) simp_all
  then have "y * w + x < w * h" using assms by (simp add: algebra_simps)
  moreover have "0 \<le> y * w + x" using assms by simp
  ultimately show ?thesis by simp
qed

lemma visit_neighbour_step:
  assumes "nat (width * height) \<le> 32 * length (as_visited st)"
  shows "fill_extends st (visit_neighbour pixels width height cx cy d st)"
    and "fill_measure (nat (width * height)) (visit_neighbour pixels width height cx cy d st)
         \<le> fill_measure (nat (width * height)) st"
proof -
  define nx where "nx = cx + fst d"
  define ny where "ny = cy + snd d"
  define n_idx where "n_idx = nat (ny * width + nx)"
  have v: "visit_neighbour pixels width height cx cy d st =
           (if nx < 0 \<or> nx \<ge> width \<or> ny < 0 \<or> ny \<ge> height then st
            else if pixels ! n_idx = 0 \<or> is_visited (as_visited st) n_idx then st
                 else push_pixel nx ny n_idx st)"
    by (simp add: visit_neighbour_def nx_def ny_def n_idx_def Let_def)
  show "fill_extends st (visit_neighbour pixels width height cx cy d st)"
  proof (cases "\<not> (nx < 0 \<or> nx \<ge> width \<or> ny < 0 \<or> ny \<ge> height)
                \<and> \<not> (pixels ! n_idx = 0 \<or> is_visited (as_visited st) n_idx)")
    case True
    then have "n_idx < nat (width * height)"
      unfolding n_idx_def by (intro index_in_range) simp_all
    then show ?thesis using True push_pixel_step(1) [OF _ assms] by (simp add: v)
  next
    case False
    then show ?thesis by (auto simp: v)
  qed
  show "fill_measure (nat (width * height)) (visit_neighbour pixels width height cx cy d st)
         \<le> fill_measure (nat (width * height)) st"
  proof (cases "\<not> (nx < 0 \<or> nx \<ge> width \<or> ny < 0 \<or> ny \<ge> height)
                \<and> \<not> (pixels ! n_idx = 0 \<or> is_visited (as_visited st) n_idx)")
    case True
    then have "n_idx < nat (width * height)"
      unfolding n_idx_def by (intro index_in_range) simp_all
    then have "Suc (fill_measure (nat (width * height)) (push_pixel nx ny n_idx st)) =
               fill_measure (nat (width * height)) st"
      using True by (intro push_pixel_step(2) [OF _ assms]) simp_all
    then show ?thesis using True by (simp add: v)
  next
    case False
    then show ?thesis by (auto simp: v)
  qed
qed

lemma fold_neighbours:
  assumes "nat (width * height) \<le> 32 * length (as_visited st)"
  shows "fill_extends st (fold (visit_neighbour pixels width height cx cy) ds st)
       \<and> fill_measure (nat (width * height)) (fold (visit_neighbour pixels width height cx cy) ds st)
         \<le> fill_measure (nat (width * height)) st"
  using assms
proof (induction ds arbitrary: st)
  case Nil
  then show ?case by simp
next
  case (Cons d ds)
  define st1 where "st1 = visit_neighbour pixels width height cx cy d st"
  note S = visit_neighbour_step [OF Cons.prems, of pixels cx cy d, folded st1_def]
  have w: "nat (width * height) \<le> 32 * length (as_visited st1)"
    using S(1) Cons.prems by (simp add: fill_extends_def)
  note I = Cons.IH [OF w]
  show ?case
    using I S fill_extends_trans [OF S(1)] by (auto simp: st1_def [symmetric])
qed

lemma fill_step_props:
  assumes "nat (width * height) \<le> 32 * length (as_visited st)" "as_stack st \<noteq> []"
  shows "fill_extends st (fill_step pixels width height st)"
    and "fill_measure (nat (width * height)) (fill_step pixels width height st)
         < fill_measure (nat (width * height)) st"
proof -
  obtain packed rest where s: "as_stack st = packed # rest" using assms(2) by (cases "as_stack st") auto
  define st0 where "st0 = st\<lparr>as_stack := rest\<rparr>"
  have f: "fill_step pixels width height st =
           fold (visit_neighbour pixels width height (unpack_x packed) (unpack_y packed))
             neighbour_offsets st0"
    by (simp add: fill_step_def s st0_def Let_def)
  have w: "nat (width * height) \<le> 32 * length (as_visited st0)" using assms(1) by (simp add: st0_def)
  note F = fold_neighbours [OF w, of pixels "unpack_x packed" "unpack_y packed" neighbour_offsets]
  have e: "fill_extends st st0" by (simp add: fill_extends_def st0_def)
  have m: "Suc (fill_measure (nat (width * height)) st0) = fill_measure (nat (width * height)) st"
    by (simp add: fill_measure_def st0_def s unvisited_set_def)
  show "fill_extends st (fill_step pixels width height st)"
    unfolding f using F e fill_extends_trans by blast
  show "fill_measure (nat (width * height)) (fill_step pixels width height st)
         < fill_measure (nat (width * height)) st"
    unfolding f using F m by linarith
qed

lemma flood_fill_returns:
  assumes "nat (width * height) \<le> 32 * length (as_visited st)"
  shows "\<exists>st'. flood_fill pixels width height st = Some st' \<and> fill_extends st st'
               \<and> as_stack st' = []"
  using assms
proof (induction "fill_measure (nat (width * height)) st" arbitrary: st rule: less_induct)
  case less
  show ?case
  proof (cases "as_stack st = []")
    case True
    then show ?thesis by (subst flood_fill.simps) simp
  next
    case False
    define st1 where "st1 = fill_step pixels width height st"
    note P = fill_step_props [OF less.prems False, of pixels, folded st1_def]
    have w: "nat (width * height) \<le> 32 * length (as_visited st1)"
      using P(1) less.prems by (simp add: fill_extends_def)
    obtain st' where r: "flood_fill pixels width height st1 = Some st'" "fill_extends st1 st'"
      "as_stack st' = []"
      using less.hyps [OF P(2) w] by blast
    have "flood_fill pixels width height st = Some st'"
      using False r(1) by (subst flood_fill.simps) (simp add: st1_def)
    then show ?thesis using r fill_extends_trans [OF P(1)] by blast
  qed
qed

subsection \<open>The scan\<close>

lemma fill_extends_card:
  assumes "fill_extends st st'"
  shows "card (visited_set pc st) \<le> card (visited_set pc st')"
proof -
  have "visited_set pc st \<subseteq> visited_set pc st'"
    using assms by (auto simp: visited_set_def fill_extends_def)
  then show ?thesis by (intro card_mono) simp_all
qed

lemma take_Suc_all:
  assumes "k < length xs"
  shows "list_all P (take (Suc k) xs) \<longleftrightarrow> list_all P (take k xs) \<and> P (xs ! k)"
  using assms by (simp add: take_Suc_conv_app_nth)

lemma finish_island_fields [simp]:
  "as_visited (finish_island a st) = as_visited st"
  "as_stack (finish_island a st) = as_stack st"
  "as_area_count (finish_island a st) = i32 (as_area_count st + 1)"
  by (simp_all add: finish_island_def Let_def)

lemma visited_set_cong:
  "as_visited st' = as_visited st \<Longrightarrow> visited_set pc st' = visited_set pc st"
  by (simp add: visited_set_def)

lemma scan_pixel_step:
  assumes inv: "scan_inv pixels pc k st"
    and pc: "pc = nat (width * height)" "width * height < 2 ^ 31" "length pixels = pc"
    and k: "k = nat (int y * width + int x)" "k < pc"
  shows "\<exists>st'. scan_pixel pixels width height pixel_area y x st = Some st'
               \<and> scan_inv pixels pc (Suc k) st'"
proof (cases "pixels ! k = 0 \<or> is_visited (as_visited st) k")
  case True
  have s: "scan_pixel pixels width height pixel_area y x st = Some st"
    using True by (simp add: scan_pixel_def k(1) [symmetric])
  have "scan_inv pixels pc (Suc k) st"
  proof (cases "pixels ! k = 0")
    case True
    then show ?thesis using inv k(2) pc(3) by (auto simp: scan_inv_def take_Suc_all)
  next
    case False
    then have "is_visited (as_visited st) k" using True by simp
    then have "k \<in> visited_set pc st" using k(2) by (simp add: visited_set_def)
    then have "visited_set pc st \<noteq> {}" by blast
    then have "as_area_count st \<noteq> 0" using inv by (simp add: scan_inv_def)
    then show ?thesis using inv k(2) pc(3) by (simp add: scan_inv_def take_Suc_all)
  qed
  then show ?thesis using s by simp
next
  case False
  define st0 where "st0 = push_pixel (int x) (int y) k (st\<lparr>as_island_pixels := 0\<rparr>)"
  define sti where "sti = st\<lparr>as_island_pixels := 0\<rparr>"
  have w: "pc \<le> 32 * length (as_visited sti)" using inv by (simp add: scan_inv_def sti_def)
  have nv: "\<not> is_visited (as_visited sti) k" using False by (simp add: sti_def)
  note P = push_pixel_step [OF k(2) w nv, of "int x" "int y", folded sti_def]
  have st0: "st0 = push_pixel (int x) (int y) k sti" by (simp add: st0_def sti_def)
  have w0: "nat (width * height) \<le> 32 * length (as_visited st0)"
    using w P(1) by (simp add: fill_extends_def st0 pc(1))
  obtain st1 where f: "flood_fill pixels width height st0 = Some st1"
    "fill_extends st0 st1" "as_stack st1 = []"
    using flood_fill_returns [OF w0] by blast
  have s: "scan_pixel pixels width height pixel_area y x st = Some (finish_island pixel_area st1)"
    using False f(1) by (simp add: scan_pixel_def k(1) [symmetric] st0_def)
  have vi: "visited_set pc sti = visited_set pc st" by (simp add: sti_def visited_set_def)
  have c0: "card (visited_set pc st0) = Suc (card (visited_set pc st))"
    using P(3) by (simp add: st0 vi)
  have c1: "Suc (card (visited_set pc st)) \<le> card (visited_set pc st1)"
    using fill_extends_card [OF f(2), of pc] c0 by simp
  have fin: "card (visited_set pc st1) \<le> pc"
  proof -
    have "visited_set pc st1 \<subseteq> {..<pc}" by (auto simp: visited_set_def)
    then have "card (visited_set pc st1) \<le> card {..<pc}" by (intro card_mono) simp_all
    then show ?thesis by simp
  qed
  have cnt: "as_area_count st1 = as_area_count st"
    using f(2) P(1) by (simp add: fill_extends_def st0 sti_def)
  have c: "0 \<le> as_area_count st" "nat (as_area_count st) \<le> card (visited_set pc st)"
    using inv by (simp_all add: scan_inv_def)
  have "int pc < 2 ^ 31" using pc(1,2) k(2) by simp
  then have b: "as_area_count st + 1 < 2 ^ 31" using c c1 fin by linarith
  have i: "i32 (as_area_count st + 1) = as_area_count st + 1"
    using c(1) b by (intro i32_id) simp_all
  have len: "length (as_visited st1) = length (as_visited st0)"
    using f(2) by (simp add: fill_extends_def)
  have ne: "visited_set pc st1 \<noteq> {}" using c1 by auto
  have "scan_inv pixels pc (Suc k) (finish_island pixel_area st1)"
    unfolding scan_inv_def
    using w0 len f(3) c c1 ne False k(2) pc(3)
    by (simp add: cnt i pc(1) take_Suc_all visited_set_cong [of "finish_island pixel_area st1" st1])
  then show ?thesis using s by simp
qed

lemma ofold_append:
  "ofold f (xs @ ys) s = (case ofold f xs s of None \<Rightarrow> None | Some s' \<Rightarrow> ofold f ys s')"
  by (induction xs arbitrary: s) (simp_all split: option.splits)

lemma ofold_counted:
  assumes "P 0 s"
    and "\<And>i t. i < n \<Longrightarrow> P i t \<Longrightarrow> \<exists>t'. f i t = Some t' \<and> P (Suc i) t'"
  shows "\<exists>s'. ofold f [0..<n] s = Some s' \<and> P n s'"
  using assms(2)
proof (induction n)
  case 0
  then show ?case using assms(1) by simp
next
  case (Suc n)
  obtain s1 where 1: "ofold f [0..<n] s = Some s1" "P n s1" using Suc.IH Suc.prems by auto
  obtain s2 where 2: "f n s1 = Some s2" "P (Suc n) s2" using Suc.prems [OF _ 1(2)] by auto
  show ?case using 1 2 by (simp add: ofold_append)
qed

lemma scan_row_step:
  assumes inv: "scan_inv pixels pc (y * nat width) st"
    and pc: "pc = nat (width * height)" "width * height < 2 ^ 31" "length pixels = pc"
    and y: "int y < height" "0 < width"
  shows "\<exists>st'. scan_row pixels width height pixel_area y st = Some st'
               \<and> scan_inv pixels pc (Suc y * nat width) st'"
proof -
  have "\<exists>st'. ofold (scan_pixel pixels width height pixel_area y) [0..<nat width] st = Some st'
          \<and> scan_inv pixels pc (y * nat width + nat width) st'"
  proof (rule ofold_counted [where P = "\<lambda>x. scan_inv pixels pc (y * nat width + x)"])
    show "scan_inv pixels pc (y * nat width + 0) st" using inv by simp
  next
    fix x t
    assume x: "x < nat width" and t: "scan_inv pixels pc (y * nat width + x) t"
    have k: "y * nat width + x = nat (int y * width + int x)"
      using y by (simp add: nat_add_distrib nat_mult_distrib)
    have "nat (int y * width + int x) < nat (width * height)"
      using x y by (intro index_in_range) simp_all
    then have kl: "y * nat width + x < pc" by (simp add: k pc(1))
    show "\<exists>t'. scan_pixel pixels width height pixel_area y x t = Some t'
            \<and> scan_inv pixels pc (y * nat width + Suc x) t'"
      using scan_pixel_step [OF t pc k kl] by simp
  qed
  then show ?thesis by (simp add: scan_row_def add.commute)
qed

lemma scan_layer_returns:
  assumes inv: "scan_inv pixels pc 0 st"
    and pc: "pc = nat (width * height)" "width * height < 2 ^ 31" "length pixels = pc"
    and w: "0 < width" "0 < height"
  shows "\<exists>st'. scan_layer pixels width height pixel_area st = Some st' \<and> scan_inv pixels pc pc st'"
proof -
  have "\<exists>st'. ofold (scan_row pixels width height pixel_area) [0..<nat height] st = Some st'
          \<and> scan_inv pixels pc (nat height * nat width) st'"
  proof (rule ofold_counted [where P = "\<lambda>y. scan_inv pixels pc (y * nat width)"])
    show "scan_inv pixels pc (0 * nat width) st" using inv by simp
  next
    fix y t
    assume y: "y < nat height" and t: "scan_inv pixels pc (y * nat width) t"
    have "int y < height" using y by simp
    then show "\<exists>t'. scan_row pixels width height pixel_area y t = Some t'
            \<and> scan_inv pixels pc (Suc y * nat width) t'"
      by (rule scan_row_step [OF t pc _ w(1)])
  qed
  moreover have "nat height * nat width = pc"
    using w by (simp add: pc(1) nat_mult_distrib mult.commute)
  ultimately show ?thesis by (simp add: scan_layer_def)
qed

lemma initial_inv:
  assumes "pc \<le> 32 * n"
  shows "scan_inv pixels pc 0 (initial_area_state width height n)"
proof -
  have "visited_set pc (initial_area_state width height n) = {}"
    using assms by (auto simp: visited_set_def initial_area_state_def not_visited_zero)
  then show ?thesis using assms by (simp add: scan_inv_def) (simp add: initial_area_state_def)
qed

lemma visited_words_cover:
  fixes pc :: int
  assumes "0 \<le> pc" "pc + 31 < 2 ^ 31"
  shows "0 \<le> drop_bit 5 (i32 (pc + 31))" "nat pc \<le> 32 * nat (drop_bit 5 (i32 (pc + 31)))"
proof -
  have i: "i32 (pc + 31) = pc + 31" using assms by (intro i32_id) simp_all
  show "0 \<le> drop_bit 5 (i32 (pc + 31))" using assms by (simp add: i drop_bit_eq_div)
  show "nat pc \<le> 32 * nat (drop_bit 5 (i32 (pc + 31)))"
    using assms by (simp add: i drop_bit_eq_div)
qed

lemma visited_words_negative:
  fixes pc :: int
  assumes "0 \<le> pc" "pc < 2 ^ 31" "2 ^ 31 \<le> pc + 31"
  shows "drop_bit 5 (i32 (pc + 31)) < 0"
proof -
  define x where "x = pc + 31 - 2 ^ 31"
  have x: "0 \<le> x" "x < 32" using assms by (simp_all add: x_def)
  have "pc + 31 + 2 ^ 31 = x + 1 * 2 ^ 32" by (simp add: x_def)
  then have "(pc + 31 + 2 ^ 31) mod 2 ^ 32 = x mod 2 ^ 32"
    by (simp only: mod_mult_self1)
  also have "\<dots> = x" using x by simp
  finally have "i32 (pc + 31) = x - 2 ^ 31"
    unfolding i32_def by (simp add: signed_take_bit_eq_take_bit_shift take_bit_eq_mod)
  then have "i32 (pc + 31) < 0" using x by simp
  then show ?thesis by simp
qed

subsection \<open>The record for a layer with no island\<close>

text \<open>
  Claim C8. For a valid pixel buffer (positive dimensions, \<open>width * height\<close> within
  \<open>int32\<close>, as many pixels as that), \<open>compute_layer_area_stats\<close> returns; it returns 1
  exactly when the rounded-up size of the bitset is also within \<open>int32\<close>, and then the
  stored record has \<open>area_count = 0\<close> if and only if every pixel of the buffer is zero,
  and when \<open>area_count = 0\<close> the seven other fields are zero.
\<close>

theorem area_count_zero_iff:
  assumes "0 < width" "0 < height" "width * height < 2 ^ 31"
    and "length pixels = nat (width * height)"
  shows "\<exists>res. compute_layer_area_stats (Some pixels) width height x_mm y_mm (Some r0) = Some res
     \<and> ((width * height + 31 < 2 ^ 31) = (res \<noteq> None))
     \<and> (\<forall>r. res = Some r \<longrightarrow>
           ((area_count r = 0) = (\<forall>p \<in> set pixels. p = 0))
           \<and> (area_count r = 0 \<longrightarrow>
                total_solid_area r = 0 \<and> largest_area r = 0 \<and> smallest_area r = 0
                \<and> min_x r = 0 \<and> min_y r = 0 \<and> max_x r = 0 \<and> max_y r = 0))"
proof -
  define pc where "pc = nat (width * height)"
  have p0: "0 \<le> width * height" using assms by simp
  have i: "i32 (width * height) = width * height" using p0 assms(3) by (intro i32_id) simp_all
  define vw where "vw = drop_bit 5 (i32 (width * height + 31))"
  show ?thesis
  proof (cases "width * height + 31 < 2 ^ 31")
    case False
    then have "vw < 0" unfolding vw_def using p0 assms(3) by (intro visited_words_negative) simp_all
    then have "compute_layer_area_stats (Some pixels) width height x_mm y_mm (Some r0) = Some None"
      using assms(1,2) by (simp add: compute_layer_area_stats_def i vw_def)
    then show ?thesis using False by simp
  next
    case True
    note V = visited_words_cover [OF p0 True, folded vw_def]
    define st0 where "st0 = initial_area_state width height (nat vw)"
    have "scan_inv pixels pc 0 st0" unfolding st0_def using V(2) by (intro initial_inv) (simp add: pc_def)
    from scan_layer_returns [OF this pc_def assms(3) assms(4) [folded pc_def] assms(1,2)]
    obtain st where s: "scan_layer pixels width height (x_mm * y_mm) st0 = Some st"
      "scan_inv pixels pc pc st" by blast
    have z: "(as_area_count st = 0) = (\<forall>p \<in> set pixels. p = 0)"
    proof -
      have "(as_area_count st = 0) = list_all (\<lambda>p. p = 0) (take pc pixels)"
        using s(2) unfolding scan_inv_def by blast
      then show ?thesis using assms(4) by (simp add: pc_def list_all_iff)
    qed
    define r where "r = (if as_area_count st = 0 then
                        \<lparr>total_solid_area = 0, largest_area = 0, smallest_area = 0,
                                    min_x = 0, min_y = 0, max_x = 0, max_y = 0, area_count = 0\<rparr>
                      else
                        \<lparr>total_solid_area = as_total_area st,
                                    largest_area = as_largest_area st,
                                    smallest_area = as_smallest_area st,
                                    min_x = as_min_x st, min_y = as_min_y st,
                                    max_x = as_max_x st, max_y = as_max_y st,
                                    area_count = as_area_count st\<rparr>)"
    have c: "compute_layer_area_stats (Some pixels) width height x_mm y_mm (Some r0) = Some (Some r)"
      using assms(1,2) V(1) s(1)
      by (simp add: compute_layer_area_stats_def i vw_def Let_def r_def
          st0_def initial_area_state_def)
    have "(area_count r = 0) = (as_area_count st = 0)" by (simp add: r_def)
    moreover have "area_count r = 0 \<longrightarrow>
                total_solid_area r = 0 \<and> largest_area r = 0 \<and> smallest_area r = 0
                \<and> min_x r = 0 \<and> min_y r = 0 \<and> max_x r = 0 \<and> max_y r = 0"
      by (simp add: r_def)
    ultimately show ?thesis using c z True by simp
  qed
qed

theorem area_count_zero_iff_witness:
  "(0 :: int) < 3 \<and> (0 :: int) < 2 \<and> (3 :: int) * 2 < 2 ^ 31
   \<and> length [0, 0, 0, 0, 9, 0 :: u8] = nat (3 * 2)
   \<and> (\<exists>r. compute_layer_area_stats (Some [0, 0, 0, 0, 9, 0]) 3 2 1 1
              (Some \<lparr>total_solid_area = 0, largest_area = 0, smallest_area = 0,
                     min_x = 0, min_y = 0, max_x = 0, max_y = 0, area_count = 0\<rparr>) = Some (Some r)
          \<and> area_count r \<noteq> 0)
   \<and> length [0, 0, 0, 0, 0, 0 :: u8] = nat (3 * 2)
   \<and> (\<exists>r. compute_layer_area_stats (Some [0, 0, 0, 0, 0, 0]) 3 2 1 1
              (Some \<lparr>total_solid_area = 5, largest_area = 5, smallest_area = 5,
                     min_x = 5, min_y = 5, max_x = 5, max_y = 5, area_count = 5\<rparr>) = Some (Some r)
          \<and> area_count r = 0 \<and> total_solid_area r = 0 \<and> largest_area r = 0
          \<and> smallest_area r = 0 \<and> min_x r = 0 \<and> min_y r = 0 \<and> max_x r = 0 \<and> max_y r = 0)"
proof -
  have h: "(0 :: int) < 3" "(0 :: int) < 2" "(3 :: int) * 2 < 2 ^ 31" by simp_all
  have l1: "length [0, 0, 0, 0, 9, 0 :: u8] = nat (3 * 2)" by simp
  have l2: "length [0, 0, 0, 0, 0, 0 :: u8] = nat (3 * 2)" by simp
  have s: "(3 :: int) * 2 + 31 < 2 ^ 31" by simp
  have n1: "\<not> (\<forall>p \<in> set [0, 0, 0, 0, 9, 0 :: u8]. p = 0)" by simp
  have n2: "\<forall>p \<in> set [0, 0, 0, 0, 0, 0 :: u8]. p = 0" by simp
  have a: "\<exists>r. compute_layer_area_stats (Some [0, 0, 0, 0, 9, 0]) 3 2 1 1
              (Some \<lparr>total_solid_area = 0, largest_area = 0, smallest_area = 0,
                     min_x = 0, min_y = 0, max_x = 0, max_y = 0, area_count = 0\<rparr>) = Some (Some r)
          \<and> area_count r \<noteq> 0"
    using area_count_zero_iff [OF h l1, of 1 1 "\<lparr>total_solid_area = 0, largest_area = 0,
      smallest_area = 0, min_x = 0, min_y = 0, max_x = 0, max_y = 0, area_count = 0\<rparr>"] s n1
    by (metis option.exhaust)
  have b: "\<exists>r. compute_layer_area_stats (Some [0, 0, 0, 0, 0, 0]) 3 2 1 1
              (Some \<lparr>total_solid_area = 5, largest_area = 5, smallest_area = 5,
                     min_x = 5, min_y = 5, max_x = 5, max_y = 5, area_count = 5\<rparr>) = Some (Some r)
          \<and> area_count r = 0 \<and> total_solid_area r = 0 \<and> largest_area r = 0
          \<and> smallest_area r = 0 \<and> min_x r = 0 \<and> min_y r = 0 \<and> max_x r = 0 \<and> max_y r = 0"
    using area_count_zero_iff [OF h l2, of 1 1 "\<lparr>total_solid_area = 5, largest_area = 5,
      smallest_area = 5, min_x = 5, min_y = 5, max_x = 5, max_y = 5, area_count = 5\<rparr>"] s n2
    by (metis option.exhaust)
  show ?thesis using h l1 l2 a b by blast
qed

lemma area_stats_example:
  "compute_layer_area_stats (Some [3, 0, 0, 0, 0, 0, 0, 0, 7]) 3 3 (1 / 2) (1 / 2)
     (Some \<lparr>total_solid_area = 0, largest_area = 0, smallest_area = 0,
            min_x = 0, min_y = 0, max_x = 0, max_y = 0, area_count = 0\<rparr>) =
   Some (Some \<lparr>total_solid_area = 1 / 2, largest_area = 1 / 4, smallest_area = 1 / 4,
         min_x = 0, min_y = 0, max_x = 2, max_y = 2, area_count = 2\<rparr>)"
  by code_simp

end
